theory Spec2Isabelle
  imports Main "HOL-Library.Word" "HOL-Library.Sublist"
begin

section \<open>Bytes and byte slices\<close>

text \<open>
  A Go \<open>byte\<close> is an Isabelle \<open>char\<close> (both are exactly the 256 values of 8 bits), so a
  \<open>[]byte\<close> and a Go \<open>string\<close> are both a \<open>string\<close>; \<open>of_char\<close> reads the numeric
  value of a byte.
\<close>

abbreviation LF :: char where "LF \<equiv> CHR 0x0A"
abbreviation CR :: char where "CR \<equiv> CHR 0x0D"

text \<open>\<open>bytes.IndexByte(data, c)\<close>: the index of the first \<open>c\<close>; Go's \<open>-1\<close> is \<open>None\<close>.\<close>

fun IndexByte :: "string \<Rightarrow> char \<Rightarrow> nat option" where
  "IndexByte [] c = None"
| "IndexByte (x # xs) c =
     (if x = c then Some 0 else (case IndexByte xs c of None \<Rightarrow> None | Some i \<Rightarrow> Some (Suc i)))"

section \<open>recorder.go: line endings\<close>

text \<open>\<open>extractLineEndingFromLine\<close> (recorder.go, lines 156-167).\<close>

definition extractLineEndingFromLine :: "string \<Rightarrow> string" where
  "extractLineEndingFromLine line =
     (if length line = 0 then []
      else if line ! (length line - 1) \<noteq> LF then []
      else if length line \<ge> 2 \<and> line ! (length line - 2) = CR then [CR, LF]
      else [LF])"

text \<open>\<open>extractLineEnding\<close> (recorder.go, lines 150-153).\<close>

definition extractLineEnding :: "string \<Rightarrow> string \<Rightarrow> string" where
  "extractLineEnding buf chunk = (let combined = buf @ chunk in extractLineEndingFromLine combined)"

section \<open>record.go: the classifier\<close>

subsection \<open>\<open>splitTrailingCRLF\<close>\<close>

text \<open>The loop of \<open>splitTrailingCRLF\<close> (lines 259-269): \<open>end\<close> walks down from \<open>len(data)\<close>.\<close>

fun splitTrailingCRLF_end :: "string \<Rightarrow> nat \<Rightarrow> nat" where
  "splitTrailingCRLF_end data e =
     (if e > 0 then
        (if data ! (e - 1) = CR \<or> data ! (e - 1) = LF then splitTrailingCRLF_end data (e - 1)
         else e)
      else e)"

declare splitTrailingCRLF_end.simps [simp del]

definition splitTrailingCRLF :: "string \<Rightarrow> string \<times> string" where
  "splitTrailingCRLF data =
     (let e = splitTrailingCRLF_end data (length data) in (take e data, drop e data))"

subsection \<open>\<open>utf8.Valid\<close>\<close>

text \<open>
  Go's \<open>unicode/utf8.Valid\<close>: the well-formed byte sequences of the Unicode standard
  (shortest form, no surrogates, at most U+10FFFF), by the table of first bytes and the
  accept ranges of the second byte; \<open>locb = 0x80\<close>, \<open>hicb = 0xBF\<close>.
\<close>

definition inRange :: "char \<Rightarrow> nat \<Rightarrow> nat \<Rightarrow> bool" where
  "inRange c lo hi = (lo \<le> of_char c \<and> (of_char c :: nat) \<le> hi)"

fun utf8_Valid :: "string \<Rightarrow> bool" where
  "utf8_Valid [] = True"
| "utf8_Valid (p # ps) =
     (if (of_char p :: nat) < 0x80 then utf8_Valid ps
      else if inRange p 0xC2 0xDF then
        (case ps of c1 # r \<Rightarrow> inRange c1 0x80 0xBF \<and> utf8_Valid r | _ \<Rightarrow> False)
      else if inRange p 0xE0 0xEF then
        (case ps of c1 # c2 # r \<Rightarrow>
            inRange c1 (if p = CHR 0xE0 then 0xA0 else 0x80) (if p = CHR 0xED then 0x9F else 0xBF)
            \<and> inRange c2 0x80 0xBF \<and> utf8_Valid r
         | _ \<Rightarrow> False)
      else if inRange p 0xF0 0xF4 then
        (case ps of c1 # c2 # c3 # r \<Rightarrow>
            inRange c1 (if p = CHR 0xF0 then 0x90 else 0x80) (if p = CHR 0xF4 then 0x8F else 0xBF)
            \<and> inRange c2 0x80 0xBF \<and> inRange c3 0x80 0xBF \<and> utf8_Valid r
         | _ \<Rightarrow> False)
      else False)"

subsection \<open>\<open>base64.StdEncoding\<close>\<close>

text \<open>
  \<open>base64.StdEncoding.EncodeToString\<close>: RFC 4648 with the standard alphabet and \<open>=\<close>
  padding. Three bytes make a 24-bit value that is cut into four 6-bit digits.
\<close>

definition encodeStd :: string where
  "encodeStd = ''ABCDEFGHIJKLMNOPQRSTUVWXYZabcdefghijklmnopqrstuvwxyz0123456789+/''"

definition b64digit :: "nat \<Rightarrow> char" where
  "b64digit n = encodeStd ! (n mod 64)"

fun EncodeToString :: "string \<Rightarrow> string" where
  "EncodeToString (a # b # c # rest) =
     (let v = of_char a * 65536 + of_char b * 256 + of_char c :: nat
      in b64digit (v div 262144) # b64digit (v div 4096) # b64digit (v div 64) # b64digit v
         # EncodeToString rest)"
| "EncodeToString [a, b] =
     (let v = of_char a * 65536 + of_char b * 256 :: nat
      in [b64digit (v div 262144), b64digit (v div 4096), b64digit (v div 64), CHR ''='']) "
| "EncodeToString [a] =
     (let v = of_char a * 65536 :: nat
      in [b64digit (v div 262144), b64digit (v div 4096), CHR ''='', CHR ''=''])"
| "EncodeToString [] = []"




subsection \<open>\<open>bytes.TrimSpace\<close>\<close>

text \<open>
  \<open>bytes.TrimSpace\<close> strips leading and trailing white space as Unicode defines it
  (\<open>unicode.IsSpace\<close>), decoding the slice as UTF-8: the six ASCII bytes of \<open>asciiSpace\<close>,
  and the code points U+0085, U+00A0, U+1680, U+2000..U+200A, U+2028, U+2029, U+202F,
  U+205F and U+3000, listed below by their UTF-8 encodings. A byte that does not decode
  is the rune U+FFFD of width one, which is no white space.
\<close>

definition asciiSpace :: "char \<Rightarrow> bool" where
  "asciiSpace c = (c = CHR 0x09 \<or> c = CHR 0x0A \<or> c = CHR 0x0B \<or> c = CHR 0x0C \<or> c = CHR 0x0D \<or> c = CHR 0x20)"

definition spaceRunes :: "string list" where
  "spaceRunes =
     [[CHR 0xC2, CHR 0x85], [CHR 0xC2, CHR 0xA0], [CHR 0xE1, CHR 0x9A, CHR 0x80],
      [CHR 0xE2, CHR 0x80, CHR 0x80], [CHR 0xE2, CHR 0x80, CHR 0x81], [CHR 0xE2, CHR 0x80, CHR 0x82],
      [CHR 0xE2, CHR 0x80, CHR 0x83], [CHR 0xE2, CHR 0x80, CHR 0x84], [CHR 0xE2, CHR 0x80, CHR 0x85],
      [CHR 0xE2, CHR 0x80, CHR 0x86], [CHR 0xE2, CHR 0x80, CHR 0x87], [CHR 0xE2, CHR 0x80, CHR 0x88],
      [CHR 0xE2, CHR 0x80, CHR 0x89], [CHR 0xE2, CHR 0x80, CHR 0x8A], [CHR 0xE2, CHR 0x80, CHR 0xA8],
      [CHR 0xE2, CHR 0x80, CHR 0xA9], [CHR 0xE2, CHR 0x80, CHR 0xAF], [CHR 0xE2, CHR 0x81, CHR 0x9F],
      [CHR 0xE3, CHR 0x80, CHR 0x80]]"

text \<open>The width in bytes of the white-space rune at the front (at the back) of \<open>s\<close>, 0 if none.\<close>

definition leadingSpace :: "string \<Rightarrow> nat" where
  "leadingSpace s =
     (case s of [] \<Rightarrow> 0
      | c # _ \<Rightarrow> if asciiSpace c then 1
                 else (case find (\<lambda>p. prefix p s) spaceRunes of Some p \<Rightarrow> length p | None \<Rightarrow> 0))"

definition trailingSpace :: "string \<Rightarrow> nat" where
  "trailingSpace s =
     (case rev s of [] \<Rightarrow> 0
      | c # _ \<Rightarrow> if asciiSpace c then 1
                 else (case find (\<lambda>p. suffix p s) spaceRunes of Some p \<Rightarrow> length p | None \<Rightarrow> 0))"

function TrimLeft :: "string \<Rightarrow> string" where
  "TrimLeft s = (if leadingSpace s = 0 then s else TrimLeft (drop (leadingSpace s) s))"
  by pat_completeness auto
termination
  by (relation "measure length") (auto simp: leadingSpace_def split: list.splits)

function TrimRight :: "string \<Rightarrow> string" where
  "TrimRight s = (if trailingSpace s = 0 then s else TrimRight (take (length s - trailingSpace s) s))"
  by pat_completeness auto
termination
  by (relation "measure length") (auto simp: trailingSpace_def split: list.splits)

declare TrimLeft.simps [simp del] TrimRight.simps [simp del]

definition TrimSpace :: "string \<Rightarrow> string" where
  "TrimSpace s = TrimRight (TrimLeft s)"


subsection \<open>\<open>encoding/json\<close>\<close>

text \<open>
  \<open>NewRecord\<close> calls \<open>json.Valid\<close> and \<open>json.Unmarshal\<close> of Go's standard library. The
  classifier below takes the two as a parameter, so that what is proved of it holds for any
  decoder; \<open>'j\<close> is the type of decoded values (Go's \<open>any\<close>).
\<close>

record 'j JSON =
  Valid :: "string \<Rightarrow> bool"
  Unmarshal :: "string \<Rightarrow> 'j option"

text \<open>
  For evaluation on concrete lines, the library's own validator: the byte-at-a-time scanner
  of \<open>encoding/json\<close> (scanner.go), a state function \<open>step\<close> and a stack \<open>parseState\<close> of the
  enclosing objects and arrays (the innermost last). The scan codes other than \<open>scanEnd\<close>
  and \<open>scanError\<close> are not told apart.
\<close>

datatype step =
    BeginValue | BeginValueOrEmpty | BeginStringOrEmpty | BeginString | EndValue | EndTop
  | InString | InStringEsc | InStringEscU | InStringEscU1 | InStringEscU12 | InStringEscU123
  | Neg | St0 | St1 | Dot | Dot0 | StE | ESign | E0
  | StT | Tr | Tru | StF | Fa | Fal | Fals | StN | Nu | Nul | StError

datatype parseState = parseObjectKey | parseObjectValue | parseArrayValue

datatype scanCode = scanContinue | scanEnd | scanError

record scanner =
  step :: step
  parseState :: "parseState list"
  endTop :: bool
  err :: bool

definition maxNestingDepth :: nat where
  "maxNestingDepth = 10000"

definition scanner_error :: "scanner \<Rightarrow> scanCode \<times> scanner" where
  "scanner_error s = (scanError, s\<lparr>step := StError, err := True\<rparr>)"

definition isSpace :: "char \<Rightarrow> bool" where
  "isSpace c = (c = CHR 0x20 \<or> c = CHR 0x09 \<or> c = CR \<or> c = LF)"

definition isDigit :: "char \<Rightarrow> bool" where
  "isDigit c = inRange c 0x30 0x39"

definition isHex :: "char \<Rightarrow> bool" where
  "isHex c = (inRange c 0x30 0x39 \<or> inRange c 0x61 0x66 \<or> inRange c 0x41 0x46)"

definition pushParseState :: "scanner \<Rightarrow> parseState \<Rightarrow> scanCode \<times> scanner" where
  "pushParseState s newParseState =
     (let s1 = s\<lparr>parseState := parseState s @ [newParseState]\<rparr>
      in if length (parseState s1) \<le> maxNestingDepth then (scanContinue, s1) else scanner_error s1)"

definition popParseState :: "scanner \<Rightarrow> scanner" where
  "popParseState s =
     (let n = length (parseState s) - 1; s1 = s\<lparr>parseState := take n (parseState s)\<rparr>
      in if n = 0 then s1\<lparr>step := EndTop, endTop := True\<rparr> else s1\<lparr>step := EndValue\<rparr>)"

definition stateEndTop :: "scanner \<Rightarrow> char \<Rightarrow> scanCode \<times> scanner" where
  "stateEndTop s c = (if \<not> isSpace c then (scanEnd, snd (scanner_error s)) else (scanEnd, s))"

definition stateEndValue :: "scanner \<Rightarrow> char \<Rightarrow> scanCode \<times> scanner" where
  "stateEndValue s c =
     (let n = length (parseState s) in
      if n = 0 then stateEndTop (s\<lparr>step := EndTop, endTop := True\<rparr>) c
      else if isSpace c then (scanContinue, s\<lparr>step := EndValue\<rparr>)
      else (case parseState s ! (n - 1) of
          parseObjectKey \<Rightarrow>
            (if c = CHR '':'' then
               (scanContinue, s\<lparr>step := BeginValue, parseState := (parseState s)[n - 1 := parseObjectValue]\<rparr>)
             else scanner_error s)
        | parseObjectValue \<Rightarrow>
            (if c = CHR '','' then
               (scanContinue, s\<lparr>step := BeginString, parseState := (parseState s)[n - 1 := parseObjectKey]\<rparr>)
             else if c = CHR ''}'' then (scanContinue, popParseState s)
             else scanner_error s)
        | parseArrayValue \<Rightarrow>
            (if c = CHR '','' then (scanContinue, s\<lparr>step := BeginValue\<rparr>)
             else if c = CHR '']'' then (scanContinue, popParseState s)
             else scanner_error s)))"

definition stateBeginValue :: "scanner \<Rightarrow> char \<Rightarrow> scanCode \<times> scanner" where
  "stateBeginValue s c =
     (if isSpace c then (scanContinue, s)
      else if c = CHR ''{'' then pushParseState (s\<lparr>step := BeginStringOrEmpty\<rparr>) parseObjectKey
      else if c = CHR ''['' then pushParseState (s\<lparr>step := BeginValueOrEmpty\<rparr>) parseArrayValue
      else if c = CHR 0x22 then (scanContinue, s\<lparr>step := InString\<rparr>)
      else if c = CHR ''-'' then (scanContinue, s\<lparr>step := Neg\<rparr>)
      else if c = CHR ''0'' then (scanContinue, s\<lparr>step := St0\<rparr>)
      else if c = CHR ''t'' then (scanContinue, s\<lparr>step := StT\<rparr>)
      else if c = CHR ''f'' then (scanContinue, s\<lparr>step := StF\<rparr>)
      else if c = CHR ''n'' then (scanContinue, s\<lparr>step := StN\<rparr>)
      else if inRange c 0x31 0x39 then (scanContinue, s\<lparr>step := St1\<rparr>)
      else scanner_error s)"

definition stateBeginValueOrEmpty :: "scanner \<Rightarrow> char \<Rightarrow> scanCode \<times> scanner" where
  "stateBeginValueOrEmpty s c =
     (if isSpace c then (scanContinue, s)
      else if c = CHR '']'' then stateEndValue s c
      else stateBeginValue s c)"

definition stateBeginString :: "scanner \<Rightarrow> char \<Rightarrow> scanCode \<times> scanner" where
  "stateBeginString s c =
     (if isSpace c then (scanContinue, s)
      else if c = CHR 0x22 then (scanContinue, s\<lparr>step := InString\<rparr>)
      else scanner_error s)"

definition stateBeginStringOrEmpty :: "scanner \<Rightarrow> char \<Rightarrow> scanCode \<times> scanner" where
  "stateBeginStringOrEmpty s c =
     (if isSpace c then (scanContinue, s)
      else if c = CHR ''}'' then
        stateEndValue (s\<lparr>parseState := (parseState s)[length (parseState s) - 1 := parseObjectValue]\<rparr>) c
      else stateBeginString s c)"

definition stateInString :: "scanner \<Rightarrow> char \<Rightarrow> scanCode \<times> scanner" where
  "stateInString s c =
     (if c = CHR 0x22 then (scanContinue, s\<lparr>step := EndValue\<rparr>)
      else if c = CHR 0x5C then (scanContinue, s\<lparr>step := InStringEsc\<rparr>)
      else if (of_char c :: nat) < 0x20 then scanner_error s
      else (scanContinue, s))"

definition stateInStringEsc :: "scanner \<Rightarrow> char \<Rightarrow> scanCode \<times> scanner" where
  "stateInStringEsc s c =
     (if c \<in> set ''bfnrt'' \<or> c = CHR 0x5C \<or> c = CHR ''/'' \<or> c = CHR 0x22 then
        (scanContinue, s\<lparr>step := InString\<rparr>)
      else if c = CHR ''u'' then (scanContinue, s\<lparr>step := InStringEscU\<rparr>)
      else scanner_error s)"

definition stateHex :: "step \<Rightarrow> scanner \<Rightarrow> char \<Rightarrow> scanCode \<times> scanner" where
  "stateHex next s c = (if isHex c then (scanContinue, s\<lparr>step := next\<rparr>) else scanner_error s)"

definition state0 :: "scanner \<Rightarrow> char \<Rightarrow> scanCode \<times> scanner" where
  "state0 s c =
     (if c = CHR ''.'' then (scanContinue, s\<lparr>step := Dot\<rparr>)
      else if c = CHR ''e'' \<or> c = CHR ''E'' then (scanContinue, s\<lparr>step := StE\<rparr>)
      else stateEndValue s c)"

definition state1 :: "scanner \<Rightarrow> char \<Rightarrow> scanCode \<times> scanner" where
  "state1 s c = (if isDigit c then (scanContinue, s\<lparr>step := St1\<rparr>) else state0 s c)"

definition stateNeg :: "scanner \<Rightarrow> char \<Rightarrow> scanCode \<times> scanner" where
  "stateNeg s c =
     (if c = CHR ''0'' then (scanContinue, s\<lparr>step := St0\<rparr>)
      else if inRange c 0x31 0x39 then (scanContinue, s\<lparr>step := St1\<rparr>)
      else scanner_error s)"

definition stateDot :: "scanner \<Rightarrow> char \<Rightarrow> scanCode \<times> scanner" where
  "stateDot s c = (if isDigit c then (scanContinue, s\<lparr>step := Dot0\<rparr>) else scanner_error s)"

definition stateDot0 :: "scanner \<Rightarrow> char \<Rightarrow> scanCode \<times> scanner" where
  "stateDot0 s c =
     (if isDigit c then (scanContinue, s)
      else if c = CHR ''e'' \<or> c = CHR ''E'' then (scanContinue, s\<lparr>step := StE\<rparr>)
      else stateEndValue s c)"

definition stateESign :: "scanner \<Rightarrow> char \<Rightarrow> scanCode \<times> scanner" where
  "stateESign s c = (if isDigit c then (scanContinue, s\<lparr>step := E0\<rparr>) else scanner_error s)"

definition stateE :: "scanner \<Rightarrow> char \<Rightarrow> scanCode \<times> scanner" where
  "stateE s c =
     (if c = CHR ''+'' \<or> c = CHR ''-'' then (scanContinue, s\<lparr>step := ESign\<rparr>) else stateESign s c)"

definition stateE0 :: "scanner \<Rightarrow> char \<Rightarrow> scanCode \<times> scanner" where
  "stateE0 s c = (if isDigit c then (scanContinue, s) else stateEndValue s c)"

text \<open>The states inside \<open>true\<close>, \<open>false\<close> and \<open>null\<close>: the one byte expected, and the next state.\<close>

definition stateLit :: "char \<Rightarrow> step \<Rightarrow> scanner \<Rightarrow> char \<Rightarrow> scanCode \<times> scanner" where
  "stateLit want next s c = (if c = want then (scanContinue, s\<lparr>step := next\<rparr>) else scanner_error s)"

text \<open>\<open>s.step(s, c)\<close>: the call through the function value held in the scanner.\<close>

definition scanner_step :: "scanner \<Rightarrow> char \<Rightarrow> scanCode \<times> scanner" where
  "scanner_step s c =
     (case step s of
        BeginValue \<Rightarrow> stateBeginValue s c
      | BeginValueOrEmpty \<Rightarrow> stateBeginValueOrEmpty s c
      | BeginStringOrEmpty \<Rightarrow> stateBeginStringOrEmpty s c
      | BeginString \<Rightarrow> stateBeginString s c
      | EndValue \<Rightarrow> stateEndValue s c
      | EndTop \<Rightarrow> stateEndTop s c
      | InString \<Rightarrow> stateInString s c
      | InStringEsc \<Rightarrow> stateInStringEsc s c
      | InStringEscU \<Rightarrow> stateHex InStringEscU1 s c
      | InStringEscU1 \<Rightarrow> stateHex InStringEscU12 s c
      | InStringEscU12 \<Rightarrow> stateHex InStringEscU123 s c
      | InStringEscU123 \<Rightarrow> stateHex InString s c
      | Neg \<Rightarrow> stateNeg s c
      | St0 \<Rightarrow> state0 s c
      | St1 \<Rightarrow> state1 s c
      | Dot \<Rightarrow> stateDot s c
      | Dot0 \<Rightarrow> stateDot0 s c
      | StE \<Rightarrow> stateE s c
      | ESign \<Rightarrow> stateESign s c
      | E0 \<Rightarrow> stateE0 s c
      | StT \<Rightarrow> stateLit (CHR ''r'') Tr s c
      | Tr \<Rightarrow> stateLit (CHR ''u'') Tru s c
      | Tru \<Rightarrow> stateLit (CHR ''e'') EndValue s c
      | StF \<Rightarrow> stateLit (CHR ''a'') Fa s c
      | Fa \<Rightarrow> stateLit (CHR ''l'') Fal s c
      | Fal \<Rightarrow> stateLit (CHR ''s'') Fals s c
      | Fals \<Rightarrow> stateLit (CHR ''e'') EndValue s c
      | StN \<Rightarrow> stateLit (CHR ''u'') Nu s c
      | Nu \<Rightarrow> stateLit (CHR ''l'') Nul s c
      | Nul \<Rightarrow> stateLit (CHR ''l'') EndValue s c
      | StError \<Rightarrow> (scanError, s))"

definition scanner_reset :: scanner where
  "scanner_reset = \<lparr>step = BeginValue, parseState = [], endTop = False, err = False\<rparr>"

definition scanner_eof :: "scanner \<Rightarrow> scanCode" where
  "scanner_eof s =
     (if err s then scanError
      else if endTop s then scanEnd
      else (let s1 = snd (scanner_step s (CHR 0x20)) in if endTop s1 then scanEnd else scanError))"

fun checkValid :: "string \<Rightarrow> scanner \<Rightarrow> bool" where
  "checkValid [] scan = (scanner_eof scan \<noteq> scanError)"
| "checkValid (c # cs) scan =
     (case scanner_step scan c of (code, scan1) \<Rightarrow>
        if code = scanError then False else checkValid cs scan1)"

definition json_Valid :: "string \<Rightarrow> bool" where
  "json_Valid data = checkValid data scanner_reset"


text \<open>
  \<open>json.Unmarshal\<close> into an \<open>any\<close> fails on input that \<open>json.Valid\<close> accepts in one case
  only: a number that overflows \<open>float64\<close>, that is, one that rounds to infinity, of
  magnitude at least \<open>2^1024 - 2^970\<close>. The number literals of a valid text are the bytes
  the scanner consumes into one of its number states.
\<close>

definition numberStep :: "step \<Rightarrow> bool" where
  "numberStep st = (st \<in> {Neg, St0, St1, Dot, Dot0, StE, ESign, E0})"

fun numberLiterals :: "scanner \<Rightarrow> string \<Rightarrow> string \<Rightarrow> string list" where
  "numberLiterals scan cur [] = (if cur = [] then [] else [cur])"
| "numberLiterals scan cur (c # cs) =
     (let scan1 = snd (scanner_step scan c)
      in if numberStep (step scan1) then numberLiterals scan1 (cur @ [c]) cs
         else (if cur = [] then [] else [cur]) @ numberLiterals scan1 [] cs)"

definition digitsValue :: "string \<Rightarrow> int" where
  "digitsValue ds = foldl (\<lambda>n c. 10 * n + (of_char c - 0x30)) 0 ds"

definition float64Fits :: "string \<Rightarrow> bool" where
  "float64Fits lit =
     (let isE = (\<lambda>c. c = CHR ''e'' \<or> c = CHR ''E'');
          body = (case lit of c # r \<Rightarrow> if c = CHR ''-'' then r else lit | [] \<Rightarrow> []);
          mant = takeWhile (\<lambda>c. \<not> isE c) body;
          ex = drop 1 (dropWhile (\<lambda>c. \<not> isE c) body);
          ipart = takeWhile (\<lambda>c. c \<noteq> CHR ''.'') mant;
          fpart = drop 1 (dropWhile (\<lambda>c. c \<noteq> CHR ''.'') mant);
          m = digitsValue (ipart @ fpart);
          e10 = (case ex of
                   c # r \<Rightarrow> if c = CHR ''-'' then - digitsValue r
                           else if c = CHR ''+'' then digitsValue r
                           else digitsValue ex
                 | [] \<Rightarrow> 0) - int (length fpart);
          bound = 2 ^ 1024 - 2 ^ 970 :: int
      in if e10 \<ge> 0 then m * 10 ^ nat e10 < bound else m < bound * 10 ^ nat (- e10))"

text \<open>
  The decoded value is not modelled further: it is represented by the JSON text it was
  decoded from.
\<close>

definition json_Unmarshal :: "string \<Rightarrow> string option" where
  "json_Unmarshal data =
     (if json_Valid data \<and> list_all float64Fits (numberLiterals scanner_reset [] data)
      then Some data else None)"

definition encoding_json :: "string JSON" where
  "encoding_json = \<lparr>Valid = json_Valid, Unmarshal = json_Unmarshal\<rparr>"

subsection \<open>\<open>time.Time\<close> and the timestamp layout\<close>

text \<open>
  An instant, given by the calendar and clock reading that \<open>timestamp.UTC()\<close> has.
\<close>

record Time =
  year :: int
  month :: nat
  day :: nat
  hour :: nat
  minute :: nat
  second :: nat
  nanosecond :: nat

fun decimal :: "nat \<Rightarrow> string" where
  "decimal n = (if n < 10 then [char_of (0x30 + n)] else decimal (n div 10) @ [char_of (0x30 + n mod 10)])"

declare decimal.simps [simp del]

text \<open>\<open>appendInt\<close> of package \<open>time\<close>: the decimal digits, padded with zeros to \<open>width\<close>.\<close>

definition appendInt :: "int \<Rightarrow> nat \<Rightarrow> string" where
  "appendInt x width =
     (let ds = decimal (nat \<bar>x\<bar>)
      in (if x < 0 then ''-'' else []) @ replicate (width - length ds) (CHR ''0'') @ ds)"

text \<open>
  \<open>timestamp.UTC().Format(timestampFormat)\<close> with
  \<open>timestampFormat = "2006-01-02T15:04:05.000Z"\<close>: year, month, day, \<open>T\<close>, hour, minute,
  second, the milliseconds (the nanoseconds cut, not rounded), and a literal \<open>Z\<close>.
\<close>

definition Format :: "Time \<Rightarrow> string" where
  "Format t =
     appendInt (year t) 4 @ ''-'' @ appendInt (int (month t)) 2 @ ''-'' @ appendInt (int (day t)) 2
     @ ''T'' @ appendInt (int (hour t)) 2 @ '':'' @ appendInt (int (minute t)) 2
     @ '':'' @ appendInt (int (second t)) 2
     @ ''.'' @ appendInt (int (nanosecond t div 1000000)) 3 @ ''Z''"

subsection \<open>\<open>Record\<close> and \<open>NewRecord\<close>\<close>

text \<open>
  The field \<open>Content any\<close> holds a Go string (for text and base64) or a decoded JSON value.
  The struct \<open>Record\<close> is called \<open>LogRecord\<close> here, \<open>Record\<close> being the recorder's method.
\<close>

datatype 'j content = Str string | Parsed 'j

record 'j LogRecord =
  Seq :: "64 word"
  Timestamp :: string
  Source :: string
  Content :: "'j content"
  Encoding :: string
  End :: string
  Truncated :: bool

text \<open>\<open>NewRecord\<close> (record.go, lines 69-108). Priority: JSON, then text, then base64.\<close>

definition NewRecord :: "'j JSON \<Rightarrow> 64 word \<Rightarrow> Time \<Rightarrow> string \<Rightarrow> string \<Rightarrow> 'j LogRecord" where
  "NewRecord J sq timestamp source data =
     (let trimmed = TrimSpace data in
      case (if length trimmed > 0 \<and> Valid J trimmed then Unmarshal J trimmed else None) of
        Some parsed \<Rightarrow>
          \<lparr>Seq = sq, Timestamp = Format timestamp, Source = source, Content = Parsed parsed,
           Encoding = ''json'', End = [], Truncated = False\<rparr>
      | None \<Rightarrow>
          if utf8_Valid data then
            (case splitTrailingCRLF data of (content, trailing) \<Rightarrow>
               \<lparr>Seq = sq, Timestamp = Format timestamp, Source = source, Content = Str content,
                Encoding = ''text'', End = trailing, Truncated = False\<rparr>)
          else
            \<lparr>Seq = sq, Timestamp = Format timestamp, Source = source,
             Content = Str (EncodeToString data), Encoding = ''base64'', End = [], Truncated = False\<rparr>)"

text \<open>
  \<open>MarshalJSON\<close> (lines 161-173): \<open>json.Marshal\<close> of the struct \<open>recordAlias\<close>, as the object
  it produces: the fields in declaration order, each under the name of its tag, a field
  tagged \<open>omitempty\<close> left out when it is the empty string or \<open>false\<close>.
\<close>

datatype 'j jsonValue = JNumber nat | JString string | JBool bool | JAny "'j content"

definition MarshalJSON :: "'j LogRecord \<Rightarrow> (string \<times> 'j jsonValue) list" where
  "MarshalJSON r =
     [(''seq'', JNumber (unat (Seq r))),
      (''timestamp'', JString (Timestamp r)),
      (''source'', JString (Source r)),
      (''content'', JAny (Content r)),
      (''encoding'', JString (Encoding r))]
     @ (if End r = [] then [] else [(''end'', JString (End r))])
     @ (if Truncated r then [(''truncated'', JBool True)] else [])"

definition ToJSON :: "'j LogRecord \<Rightarrow> (string \<times> 'j jsonValue) list" where
  "ToJSON r = MarshalJSON r"


section \<open>recorder.go: the recorder\<close>

datatype Source = Stdin | Stdout | Stderr

fun Source_String :: "Source \<Rightarrow> string" where
  "Source_String Stdin = ''stdin''"
| "Source_String Stdout = ''stdout''"
| "Source_String Stderr = ''stderr''"

text \<open>
  The sink (\<open>file\<close> and \<open>writer\<close>) is kept as the list \<open>written\<close> of the records whose
  serialization and newline it has accepted, one element a physical line of the file. What
  the serializer and the buffered writer answer to the \<open>k\<close>-th record handed to them is given
  by the environment, \<open>outcome k\<close>; \<open>attempts\<close> counts the records handed over so far. A call
  that fails leaves no line. The mutex \<open>mu\<close> is held over the whole of \<open>Record\<close> and of
  \<open>Flush\<close>, so the calls of concurrent goroutines take effect one after the other, in the
  order modelled by a list of calls.
\<close>

datatype writeOutcome = Written | SerializeFails | WriteFails | NewlineFails

datatype error = SerializeError | WriteError | NewlineError

record 'j Recorder =
  seq :: "64 word"
  buffers :: "Source \<Rightarrow> string"
  truncated :: "Source \<Rightarrow> bool"
  maxLineLength :: int
  written :: "'j LogRecord list"
  attempts :: nat
  outcome :: "nat \<Rightarrow> writeOutcome"

text \<open>\<open>NewRecorder\<close> (lines 51-62), once the file is created: all fields at their zero values.\<close>

definition NewRecorder :: "(nat \<Rightarrow> writeOutcome) \<Rightarrow> int \<Rightarrow> 'j Recorder" where
  "NewRecorder env maxLen =
     \<lparr>seq = 0, buffers = (\<lambda>_. []), truncated = (\<lambda>_. False), maxLineLength = maxLen,
      written = [], attempts = 0, outcome = env\<rparr>"

text \<open>\<open>writeRecord\<close> (lines 195-213). The counter is advanced before anything can fail.\<close>

definition writeRecord ::
  "'j JSON \<Rightarrow> 'j Recorder \<Rightarrow> Time \<Rightarrow> Source \<Rightarrow> string \<Rightarrow> bool \<Rightarrow> error option \<times> 'j Recorder" where
  "writeRecord J r now source data trunc =
     (let sq = seq r + 1 - 1;
          r1 = r\<lparr>seq := seq r + 1, attempts := attempts r + 1\<rparr>;
          record = (NewRecord J sq now (Source_String source) data)\<lparr>Truncated := trunc\<rparr>
      in case outcome r (attempts r) of
           SerializeFails \<Rightarrow> (Some SerializeError, r1)
         | WriteFails \<Rightarrow> (Some WriteError, r1)
         | NewlineFails \<Rightarrow> (Some NewlineError, r1)
         | Written \<Rightarrow> (None, r1\<lparr>written := written r1 @ [record]\<rparr>))"

text \<open>\<open>writeTruncatedRecord\<close> (lines 217-221).\<close>

definition writeTruncatedRecord ::
  "'j JSON \<Rightarrow> 'j Recorder \<Rightarrow> Time \<Rightarrow> Source \<Rightarrow> string \<Rightarrow> string \<Rightarrow> error option \<times> 'j Recorder" where
  "writeTruncatedRecord J r now source content lineEnding =
     (let data = content @ lineEnding in writeRecord J r now source data True)"

text \<open>
  \<open>append(content, lineEnding...)\<close> in \<open>writeTruncatedRecord\<close> writes into the array behind
  \<open>content\<close> when its capacity suffices. At line 135 \<open>content\<close> is \<open>line[:maxLineLength]\<close>, and
  when the pending buffer was empty \<open>line\<close> is \<open>data[:lineEnd]\<close>: a slice of the chunk still
  being read. \<open>appendInPlace data n xs\<close> is the chunk after \<open>append(data[:n], xs...)\<close>: its
  bytes from index \<open>n\<close> on are overwritten by \<open>xs\<close>. (The capacity of \<open>data[:n]\<close> is that of
  \<open>data\<close>, at least \<open>len(data)\<close>, so every byte of \<open>xs\<close> that falls before \<open>lineEnd\<close> or is
  followed by a byte of \<open>data\<close> is written in place; a byte written past \<open>len(data)\<close> is
  not seen by \<open>Record\<close>.)
\<close>

definition appendInPlace :: "string \<Rightarrow> nat \<Rightarrow> string \<Rightarrow> string" where
  "appendInPlace data n xs = take n data @ take (length data - n) xs @ drop (n + length xs) data"

text \<open>
  The loop of \<open>Record\<close> (lines 82-144), with its local variables \<open>buf\<close>, \<open>isTruncated\<close> and
  \<open>data\<close>. The result is the error returned (\<open>None\<close> for \<open>nil\<close>) and the recorder left behind.
\<close>

function Record_loop ::
  "'j JSON \<Rightarrow> 'j Recorder \<Rightarrow> Source \<Rightarrow> Time \<Rightarrow> string \<Rightarrow> bool \<Rightarrow> string \<Rightarrow> error option \<times> 'j Recorder" where
  "Record_loop J r source now buf isTruncated data =
     (if \<not> length data > 0 then (None, r)
      else
        (case (isTruncated, IndexByte data LF) of
           (True, None) \<Rightarrow> (None, r)
         | (True, Some idx) \<Rightarrow>
             (let lineEnd = idx + 1;
                  lineEnding = extractLineEnding buf (take lineEnd data)
              in case writeTruncatedRecord J r now source buf lineEnding of
                   (Some e, r1) \<Rightarrow> (Some e, r1)
                 | (None, r1) \<Rightarrow>
                     Record_loop J
                       (r1\<lparr>buffers := (buffers r1)(source := []),
                           truncated := (truncated r1)(source := False)\<rparr>)
                       source now [] False (drop lineEnd data))
         | (False, None) \<Rightarrow>
             (let newBuf = buf @ data
              in if maxLineLength r > 0 \<and> int (length newBuf) > maxLineLength r then
                   (None, r\<lparr>buffers := (buffers r)(source := take (nat (maxLineLength r)) newBuf),
                             truncated := (truncated r)(source := True)\<rparr>)
                 else (None, r\<lparr>buffers := (buffers r)(source := newBuf)\<rparr>))
         | (False, Some idx) \<Rightarrow>
             (let lineEnd = idx + 1;
                  line = (if length buf > 0 then buf @ take lineEnd data else take lineEnd data);
                  r0 = (if length buf > 0 then r\<lparr>buffers := (buffers r)(source := [])\<rparr> else r);
                  buf1 = (if length buf > 0 then [] else buf)
              in if maxLineLength r > 0 \<and> int (length line) > maxLineLength r then
                   (let lineEnding = extractLineEndingFromLine line;
                        truncatedContent = take (nat (maxLineLength r)) line;
                        data1 = (if length buf > 0 then data
                                 else appendInPlace data (nat (maxLineLength r)) lineEnding)
                    in case writeTruncatedRecord J r0 now source truncatedContent lineEnding of
                         (Some e, r1) \<Rightarrow> (Some e, r1)
                       | (None, r1) \<Rightarrow> Record_loop J r1 source now buf1 False (drop lineEnd data1))
                 else
                   (case writeRecord J r0 now source line False of
                      (Some e, r1) \<Rightarrow> (Some e, r1)
                    | (None, r1) \<Rightarrow> Record_loop J r1 source now buf1 False (drop lineEnd data)))))"
  by pat_completeness auto
termination
  by (relation "measure (\<lambda>(J, r, source, now, buf, isTruncated, data). length data)")
     (auto simp: appendInPlace_def)

declare Record_loop.simps [simp del]

text \<open>\<open>Record\<close> (lines 69-147); \<open>now\<close> is the value of \<open>time.Now()\<close> at line 74.\<close>

definition Record :: "'j JSON \<Rightarrow> 'j Recorder \<Rightarrow> Source \<Rightarrow> string \<Rightarrow> Time \<Rightarrow> error option \<times> 'j Recorder" where
  "Record J r source data now =
     (if length data = 0 then (None, r)
      else Record_loop J r source now (buffers r source) (truncated r source) data)"

text \<open>\<open>Flush\<close> (lines 172-192).\<close>

definition Flush :: "'j JSON \<Rightarrow> 'j Recorder \<Rightarrow> Source \<Rightarrow> Time \<Rightarrow> error option \<times> 'j Recorder" where
  "Flush J r source now =
     (let buf = buffers r source in
      if length buf = 0 then (None, r\<lparr>truncated := (truncated r)(source := False)\<rparr>)
      else
        (let isTruncated = truncated r source;
             r1 = r\<lparr>buffers := (buffers r)(source := []), truncated := (truncated r)(source := False)\<rparr>
         in if isTruncated then writeTruncatedRecord J r1 now source buf []
            else writeRecord J r1 now source buf False))"


subsection \<open>Runs\<close>

text \<open>
  A run of the recorder: the calls of \<open>Record\<close> and \<open>Flush\<close> in the order in which they take
  the mutex, each with its own reading of the clock. As in \<open>CopyAndRecord\<close> (lines 240-250),
  an error returned by a call is reported and the next call is made all the same; the run
  yields the results of the calls and the final recorder.
\<close>

datatype call = RecordCall Source string Time | FlushCall Source Time

fun do_call :: "'j JSON \<Rightarrow> 'j Recorder \<Rightarrow> call \<Rightarrow> error option \<times> 'j Recorder" where
  "do_call J r (RecordCall source data now) = Record J r source data now"
| "do_call J r (FlushCall source now) = Flush J r source now"

fun run :: "'j JSON \<Rightarrow> 'j Recorder \<Rightarrow> call list \<Rightarrow> error option list \<times> 'j Recorder" where
  "run J r [] = ([], r)"
| "run J r (c # cs) =
     (case do_call J r c of (e, r1) \<Rightarrow> (case run J r1 cs of (es, r2) \<Rightarrow> (e # es, r2)))"


section \<open>What a call of \<open>Record\<close> hands to the writer\<close>

text \<open>
  For the proofs, the loop of \<open>Record\<close> is split in two: \<open>assemble\<close> follows the loop on
  the bytes alone and lists the arguments \<open>(data, truncated)\<close> of its calls of \<open>writeRecord\<close>
  in order, together with the pending buffer and the truncation flag on leaving the loop
  normally; \<open>emit_all\<close> makes these calls one after the other until one fails.
  Lemma \<open>Record_loop_assemble\<close> below shows that the loop does exactly this.
\<close>

function assemble :: "int \<Rightarrow> string \<Rightarrow> bool \<Rightarrow> string \<Rightarrow> (string \<times> bool) list \<times> string \<times> bool" where
  "assemble limit buf isTruncated data =
     (if data = [] then ([], buf, isTruncated)
      else
        (case (isTruncated, IndexByte data LF) of
           (True, None) \<Rightarrow> ([], buf, True)
         | (True, Some idx) \<Rightarrow>
             (case assemble limit [] False (drop (idx + 1) data) of
                (ems, fin) \<Rightarrow> ((buf @ extractLineEnding buf (take (idx + 1) data), True) # ems, fin))
         | (False, None) \<Rightarrow>
             (if limit > 0 \<and> int (length (buf @ data)) > limit
              then ([], take (nat limit) (buf @ data), True)
              else ([], buf @ data, False))
         | (False, Some idx) \<Rightarrow>
             (let line = buf @ take (idx + 1) data in
              if limit > 0 \<and> int (length line) > limit then
                (case assemble limit [] False
                        (drop (idx + 1)
                           (if buf = [] then appendInPlace data (nat limit) (extractLineEndingFromLine line)
                            else data)) of
                   (ems, fin) \<Rightarrow>
                     ((take (nat limit) line @ extractLineEndingFromLine line, True) # ems, fin))
              else
                (case assemble limit [] False (drop (idx + 1) data) of
                   (ems, fin) \<Rightarrow> ((line, False) # ems, fin)))))"
  by pat_completeness auto
termination
  by (relation "measure (\<lambda>(limit, buf, isTruncated, data). length data)")
     (auto simp: appendInPlace_def)

declare assemble.simps [simp del]

fun emit_all ::
  "'j JSON \<Rightarrow> 'j Recorder \<Rightarrow> Time \<Rightarrow> Source \<Rightarrow> (string \<times> bool) list \<Rightarrow> error option \<times> 'j Recorder" where
  "emit_all J r now source [] = (None, r)"
| "emit_all J r now source ((data, trunc) # ems) =
     (case writeRecord J r now source data trunc of
        (Some e, r1) \<Rightarrow> (Some e, r1)
      | (None, r1) \<Rightarrow> emit_all J r1 now source ems)"

section \<open>Auxiliary notions for the proofs\<close>

text \<open>Two recorders with the same counter, sink and configuration.\<close>

definition sink_eq :: "'j Recorder \<Rightarrow> 'j Recorder \<Rightarrow> bool" where
  "sink_eq r r' \<longleftrightarrow>
     seq r = seq r' \<and> written r = written r' \<and> attempts r = attempts r' \<and>
     outcome r = outcome r' \<and> maxLineLength r = maxLineLength r'"

text \<open>What lemma \<open>Record_loop_assemble\<close> states of one run of the loop.\<close>

definition loop_spec ::
  "'j JSON \<Rightarrow> 'j Recorder \<Rightarrow> Source \<Rightarrow> Time \<Rightarrow> string \<Rightarrow> bool \<Rightarrow> string \<Rightarrow> bool" where
  "loop_spec J r s now buf tr data \<longleftrightarrow>
     (let R = Record_loop J r s now buf tr data;
          A = assemble (maxLineLength r) buf tr data;
          E = emit_all J r now s (fst A)
      in fst R = fst E \<and> sink_eq (snd R) (snd E)
         \<and> (\<forall>s'. s' \<noteq> s \<longrightarrow> buffers (snd R) s' = buffers r s' \<and> truncated (snd R) s' = truncated r s')
         \<and> (fst R = None \<longrightarrow> buffers (snd R) s = fst (snd A) \<and> truncated (snd R) s = snd (snd A))
         \<and> (fst R \<noteq> None \<longrightarrow>
                (buffers (snd R) s = buffers r s \<and> truncated (snd R) s = truncated r s)
              \<or> (buffers (snd R) s = [] \<and> \<not> truncated (snd R) s)))"

text \<open>A record that \<open>writeRecord\<close> builds for one of the listed arguments.\<close>

definition emitted ::
  "'j JSON \<Rightarrow> Time \<Rightarrow> Source \<Rightarrow> (string \<times> bool) list \<Rightarrow> 'j LogRecord \<Rightarrow> bool" where
  "emitted J now s ems rec \<longleftrightarrow>
     (\<exists>sq d t. (d, t) \<in> set ems \<and> rec = (NewRecord J sq now (Source_String s) d)\<lparr>Truncated := t\<rparr>)"

text \<open>
  The sequencing invariant: the counter is the number of records handed to the writer so
  far, and the records in the sink carry, in order, the numbers of the attempts that the
  sink accepted. \<open>failures\<close> counts the attempts it refused.
\<close>

definition seq_inv :: "'j Recorder \<Rightarrow> bool" where
  "seq_inv r \<longleftrightarrow>
     seq r = of_nat (attempts r) \<and>
     map Seq (written r) = map of_nat (filter (\<lambda>k. outcome r k = Written) [0..<attempts r])"

definition failures :: "'j Recorder \<Rightarrow> nat" where
  "failures r = length (filter (\<lambda>k. outcome r k \<noteq> Written) [0..<attempts r])"

definition errors :: "error option list \<Rightarrow> nat" where
  "errors es = length (filter (\<lambda>e. e \<noteq> None) es)"

text \<open>What one call, or a run of calls, with result \<open>e\<close> keeps of these.\<close>

definition step_ok :: "'j Recorder \<Rightarrow> nat \<Rightarrow> 'j Recorder \<Rightarrow> bool" where
  "step_ok r n r' \<longleftrightarrow>
     outcome r' = outcome r \<and> maxLineLength r' = maxLineLength r \<and> attempts r \<le> attempts r' \<and>
     (seq_inv r \<longrightarrow> seq_inv r') \<and> failures r' = failures r + n"

section \<open>Concrete inputs\<close>

text \<open>
  A sink that accepts every record, a reading of the clock, and the tuple of what a record
  reports of a line; they are used to run the recorder on explicit inputs.
\<close>

definition healthy :: "nat \<Rightarrow> writeOutcome" where
  "healthy k = Written"

definition clock0 :: Time where
  "clock0 = \<lparr>year = 2024, month = 1, day = 15, hour = 10, minute = 30, second = 45,
             nanosecond = 123456789\<rparr>"

definition summary :: "'j LogRecord \<Rightarrow> 'j content \<times> string \<times> string \<times> bool" where
  "summary rec = (Content rec, Encoding rec, End rec, Truncated rec)"

text \<open>A new recorder over that sink, for the decoder \<open>encoding_json\<close>.\<close>

definition recorder0 :: "int \<Rightarrow> string Recorder" where
  "recorder0 limit = NewRecorder healthy limit"


text \<open>A sink that refuses the first record handed to it and accepts the others.\<close>

definition refuse_first :: "nat \<Rightarrow> writeOutcome" where
  "refuse_first k = (if k = 0 then WriteFails else Written)"

definition two_lines :: "call list" where
  "two_lines = [RecordCall Stdout (''a'' @ [LF]) clock0, RecordCall Stderr (''b'' @ [LF]) clock0]"

definition recorder1 :: "string Recorder" where
  "recorder1 = NewRecorder refuse_first 0"

section \<open>The format of the specification\<close>

text \<open>The clock reading and the stream of a call.\<close>

fun call_time :: "call \<Rightarrow> Time" where
  "call_time (RecordCall source data now) = now"
| "call_time (FlushCall source now) = now"

fun call_source :: "call \<Rightarrow> Source" where
  "call_source (RecordCall source data now) = source"
| "call_source (FlushCall source now) = source"

text \<open>
  A reading of the clock in UTC as \<open>time.Now().UTC()\<close> gives it: a year of four digits, a
  month, a day, and a time of day.
\<close>

definition validClock :: "Time \<Rightarrow> bool" where
  "validClock t \<longleftrightarrow>
     0 \<le> year t \<and> year t \<le> 9999 \<and> 1 \<le> month t \<and> month t \<le> 12 \<and> 1 \<le> day t \<and> day t \<le> 31 \<and>
     hour t < 24 \<and> minute t < 60 \<and> second t < 60 \<and> nanosecond t < 1000000000"

text \<open>
  The pattern \<open>YYYY-MM-DDTHH:MM:SS.mmmZ\<close> of the specification: \<open>matchLayout\<close> compares a
  string with a layout in which \<open>9\<close> stands for any decimal digit and every other character
  for itself.
\<close>

fun matchLayout :: "string \<Rightarrow> string \<Rightarrow> bool" where
  "matchLayout [] [] = True"
| "matchLayout (p # ps) (c # cs) = ((if p = CHR ''9'' then isDigit c else c = p) \<and> matchLayout ps cs)"
| "matchLayout _ _ = False"

definition timestampPattern :: "string \<Rightarrow> bool" where
  "timestampPattern ts = matchLayout ''9999-99-99T99:99:99.999Z'' ts"

text \<open>The record of the line \<open>a\<close>, LF on \<open>stdout\<close>, the first that the run \<open>two_lines\<close> writes.\<close>

definition first_line :: "string LogRecord" where
  "first_line = NewRecord encoding_json 0 clock0 ''stdout'' (''a'' @ [LF])"


section \<open>Reading the log back\<close>













lemma IndexByte_None: "IndexByte xs c = None \<longleftrightarrow> c \<notin> set xs"
  by (induction xs) (auto split: option.splits)

lemma IndexByte_Some:
  "IndexByte xs c = Some i \<Longrightarrow> i < length xs \<and> xs ! i = c \<and> c \<notin> set (take i xs)"
  by (induction xs arbitrary: i) (auto split: option.splits if_splits)

lemma IndexByte_Some_split:
  "IndexByte xs c = Some i \<Longrightarrow> take (Suc i) xs = take i xs @ [c] \<and> c \<notin> set (take i xs)"
  by (metis IndexByte_Some take_Suc_conv_app_nth)

lemma IndexByte_append: "c \<notin> set xs \<Longrightarrow> IndexByte (xs @ c # ys) c = Some (length xs)"
  by (induction xs) auto

lemma length_appendInPlace [simp]: "length (appendInPlace data n xs) = length data"
  unfolding appendInPlace_def by (simp add: min_def)

lemma Record_loop_nil: "Record_loop J r s now buf tr [] = (None, r)"
  by (simp add: Record_loop.simps)

lemma Record_loop_T_None:
  "IndexByte data LF = None \<Longrightarrow> Record_loop J r s now buf True data = (None, r)"
  by (simp add: Record_loop.simps)

lemma case_write:
  "(case W of (None, r1) \<Rightarrow> f r1 | (Some e, r1) \<Rightarrow> (Some e, r1)) =
   (if fst W = None then f (snd W) else W)"
  by (cases W; cases "fst W") auto

lemma Record_loop_F_None:
  "data \<noteq> [] \<Longrightarrow> IndexByte data LF = None \<Longrightarrow>
   Record_loop J r s now buf False data =
     (if maxLineLength r > 0 \<and> int (length (buf @ data)) > maxLineLength r then
        (None, r\<lparr>buffers := (buffers r)(s := take (nat (maxLineLength r)) (buf @ data)),
                  truncated := (truncated r)(s := True)\<rparr>)
      else (None, r\<lparr>buffers := (buffers r)(s := buf @ data)\<rparr>))"
  by (subst Record_loop.simps) (simp add: Let_def)

lemma Record_loop_T_Some_if:
  assumes "IndexByte data LF = Some idx"
    and "W = writeRecord J r now s (buf @ extractLineEnding buf (take (Suc idx) data)) True"
  shows "Record_loop J r s now buf True data =
     (if fst W = None
      then Record_loop J
             ((snd W)\<lparr>buffers := (buffers (snd W))(s := []), truncated := (truncated (snd W))(s := False)\<rparr>)
             s now [] False (drop (Suc idx) data)
      else W)"
proof -
  have ne: "data \<noteq> []" using assms(1) by auto
  have W: "writeRecord J r now s (buf @ extractLineEnding buf (take (Suc idx) data)) True = W"
    using assms(2) by simp
  show ?thesis
    by (cases "fst W")
       (subst Record_loop.simps, simp add: ne assms(1) Let_def writeTruncatedRecord_def case_write W)+
qed

lemma Record_loop_F_Some_over:
  assumes "IndexByte data LF = Some idx"
    and "maxLineLength r > 0 \<and> int (length (buf @ take (Suc idx) data)) > maxLineLength r"
    and "r0 = (if buf \<noteq> [] then r\<lparr>buffers := (buffers r)(s := [])\<rparr> else r)"
    and "W = writeRecord J r0 now s
         (take (nat (maxLineLength r)) (buf @ take (Suc idx) data)
            @ extractLineEndingFromLine (buf @ take (Suc idx) data)) True"
  shows "Record_loop J r s now buf False data =
     (if fst W = None
      then Record_loop J (snd W) s now [] False
             (drop (Suc idx)
                (if buf = [] then appendInPlace data (nat (maxLineLength r))
                                    (extractLineEndingFromLine (buf @ take (Suc idx) data))
                 else data))
      else W)"
proof -
  have ne: "data \<noteq> []" using assms(1) by auto
  show ?thesis
  proof (cases "buf = []")
    case True
    have W: "writeRecord J r now s
         (take (nat (maxLineLength r)) (take (Suc idx) data)
            @ extractLineEndingFromLine (take (Suc idx) data)) True = W"
      using assms(3,4) True by simp
    have c: "0 < maxLineLength r" "maxLineLength r < int (length (take (Suc idx) data))"
      using assms(2) True by simp_all
    show ?thesis
      by (cases "fst W")
         (subst Record_loop.simps,
          simp add: ne assms(1) True Let_def writeTruncatedRecord_def case_write W c del: length_take take_take)+
  next
    case False
    have W: "writeRecord J (r\<lparr>buffers := (buffers r)(s := [])\<rparr>) now s
         (take (nat (maxLineLength r)) (buf @ take (Suc idx) data)
            @ extractLineEndingFromLine (buf @ take (Suc idx) data)) True = W"
      using assms(3,4) False by simp
    have c: "0 < maxLineLength r" "maxLineLength r < int (length (buf @ take (Suc idx) data))"
      using assms(2) by simp_all
    show ?thesis
      by (cases "fst W")
         (subst Record_loop.simps,
          simp add: ne assms(1) False Let_def writeTruncatedRecord_def case_write W c
            del: length_take take_take length_append take_append)+
  qed
qed

lemma Record_loop_F_Some_within:
  assumes "IndexByte data LF = Some idx"
    and "\<not> (maxLineLength r > 0 \<and> int (length (buf @ take (Suc idx) data)) > maxLineLength r)"
    and "r0 = (if buf \<noteq> [] then r\<lparr>buffers := (buffers r)(s := [])\<rparr> else r)"
    and "W = writeRecord J r0 now s (buf @ take (Suc idx) data) False"
  shows "Record_loop J r s now buf False data =
     (if fst W = None then Record_loop J (snd W) s now [] False (drop (Suc idx) data) else W)"
proof -
  have ne: "data \<noteq> []" using assms(1) by auto
  show ?thesis
  proof (cases "buf = []")
    case True
    have W: "writeRecord J r now s (take (Suc idx) data) False = W"
      using assms(3,4) True by simp
    have c: "(0 < maxLineLength r \<and> maxLineLength r < int (length (take (Suc idx) data))) = False"
      using assms(2) True by simp
    show ?thesis
      by (cases "fst W")
         (subst Record_loop.simps,
          simp add: ne assms(1) True Let_def case_write W c del: length_take)+
  next
    case False
    have W: "writeRecord J (r\<lparr>buffers := (buffers r)(s := [])\<rparr>) now s (buf @ take (Suc idx) data) False = W"
      using assms(3,4) False by simp
    have c: "(0 < maxLineLength r \<and> maxLineLength r < int (length (buf @ take (Suc idx) data))) = False"
      using assms(2) by simp
    show ?thesis
      by (cases "fst W")
         (subst Record_loop.simps,
          simp add: ne assms(1) False Let_def case_write W c del: length_take length_append)+
  qed
qed

lemma assemble_nil: "assemble limit buf tr [] = ([], buf, tr)"
  by (simp add: assemble.simps)

lemma assemble_T_None:
  "IndexByte data LF = None \<Longrightarrow> assemble limit buf True data = ([], buf, True)"
  by (simp add: assemble.simps)

lemma assemble_T_Some:
  assumes "IndexByte data LF = Some idx"
  shows "assemble limit buf True data =
     ((buf @ extractLineEnding buf (take (Suc idx) data), True)
        # fst (assemble limit [] False (drop (Suc idx) data)),
      snd (assemble limit [] False (drop (Suc idx) data)))"
proof -
  have ne: "data \<noteq> []" using assms by auto
  show ?thesis
    by (subst assemble.simps) (simp add: ne assms case_prod_beta)
qed

lemma assemble_F_None:
  "IndexByte data LF = None \<Longrightarrow>
   assemble limit buf False data =
     (if data = [] then ([], buf, False)
      else if limit > 0 \<and> int (length (buf @ data)) > limit
      then ([], take (nat limit) (buf @ data), True)
      else ([], buf @ data, False))"
  by (subst assemble.simps) simp

lemma assemble_F_Some_over:
  assumes "IndexByte data LF = Some idx"
    and "limit > 0 \<and> int (length (buf @ take (Suc idx) data)) > limit"
    and "rest = drop (Suc idx)
            (if buf = [] then appendInPlace data (nat limit)
                                (extractLineEndingFromLine (buf @ take (Suc idx) data))
             else data)"
  shows "assemble limit buf False data =
     ((take (nat limit) (buf @ take (Suc idx) data)
         @ extractLineEndingFromLine (buf @ take (Suc idx) data), True)
        # fst (assemble limit [] False rest),
      snd (assemble limit [] False rest))"
proof -
  have ne: "(data = []) = False" using assms(1) by auto
  have c: "(0 < limit \<and> limit < int (length (buf @ take (Suc idx) data))) = True"
    using assms(2) by simp
  have i: "idx + 1 = Suc idx" by simp
  show ?thesis
    by (subst assemble.simps)
       (simp only: ne assms(1) if_False prod.case bool.case option.case Let_def i c if_True
          case_prod_beta fst_conv snd_conv assms(3))
qed

lemma assemble_F_Some_within:
  assumes "IndexByte data LF = Some idx"
    and "\<not> (limit > 0 \<and> int (length (buf @ take (Suc idx) data)) > limit)"
  shows "assemble limit buf False data =
     ((buf @ take (Suc idx) data, False) # fst (assemble limit [] False (drop (Suc idx) data)),
      snd (assemble limit [] False (drop (Suc idx) data)))"
proof -
  have ne: "(data = []) = False" using assms(1) by auto
  have c: "(0 < limit \<and> limit < int (length (buf @ take (Suc idx) data))) = False"
    using assms(2) by simp
  have i: "idx + 1 = Suc idx" by simp
  show ?thesis
    by (subst assemble.simps)
       (simp only: ne assms(1) if_False prod.case bool.case option.case Let_def i c
          case_prod_beta fst_conv snd_conv)
qed

lemma sink_eq_refl [simp]: "sink_eq r r"
  by (simp add: sink_eq_def)

lemma sink_eq_upd [simp]:
  "sink_eq (r\<lparr>buffers := b\<rparr>) r' = sink_eq r r'"
  "sink_eq (r\<lparr>truncated := t\<rparr>) r' = sink_eq r r'"
  "sink_eq r (r'\<lparr>buffers := b\<rparr>) = sink_eq r r'"
  "sink_eq r (r'\<lparr>truncated := t\<rparr>) = sink_eq r r'"
  by (simp_all add: sink_eq_def)

lemma writeRecord_sink_eq:
  "sink_eq r r' \<Longrightarrow>
   fst (writeRecord J r now s d t) = fst (writeRecord J r' now s d t) \<and>
   sink_eq (snd (writeRecord J r now s d t)) (snd (writeRecord J r' now s d t))"
  by (auto simp: sink_eq_def writeRecord_def Let_def split: writeOutcome.splits)

lemma writeRecord_frame [simp]:
  "buffers (snd (writeRecord J r now s d t)) = buffers r"
  "truncated (snd (writeRecord J r now s d t)) = truncated r"
  "maxLineLength (snd (writeRecord J r now s d t)) = maxLineLength r"
  "outcome (snd (writeRecord J r now s d t)) = outcome r"
  by (auto simp: writeRecord_def Let_def split: writeOutcome.splits)

lemma emit_all_Cons:
  "emit_all J r now s ((d, t) # ems) =
     (if fst (writeRecord J r now s d t) = None
      then emit_all J (snd (writeRecord J r now s d t)) now s ems
      else writeRecord J r now s d t)"
  by (cases "writeRecord J r now s d t"; cases "fst (writeRecord J r now s d t)") auto

lemma emit_all_Cons_None:
  "fst (writeRecord J r now s d t) = None \<Longrightarrow>
   emit_all J r now s ((d, t) # ems) = emit_all J (snd (writeRecord J r now s d t)) now s ems"
  by (simp add: emit_all_Cons del: emit_all.simps)

lemma emit_all_Cons_Some:
  "fst (writeRecord J r now s d t) \<noteq> None \<Longrightarrow>
   emit_all J r now s ((d, t) # ems) = writeRecord J r now s d t"
  by (simp only: emit_all_Cons if_False)

lemma emit_all_sink_eq:
  "sink_eq r r' \<Longrightarrow>
   fst (emit_all J r now s ems) = fst (emit_all J r' now s ems) \<and>
   sink_eq (snd (emit_all J r now s ems)) (snd (emit_all J r' now s ems))"
proof (induction ems arbitrary: r r')
  case Nil
  then show ?case by simp
next
  case (Cons a ems)
  obtain d t where a: "a = (d, t)" by (cases a)
  from writeRecord_sink_eq [OF Cons.prems, of J now s d t]
  have w: "fst (writeRecord J r now s d t) = fst (writeRecord J r' now s d t)"
    "sink_eq (snd (writeRecord J r now s d t)) (snd (writeRecord J r' now s d t))"
    by simp_all
  show ?case
  proof (cases "fst (writeRecord J r' now s d t)")
    case None
    with w(1) Cons.IH [OF w(2)] show ?thesis
      unfolding a emit_all_Cons by simp
  next
    case (Some e)
    with w show ?thesis
      unfolding a emit_all_Cons by simp
  qed
qed

lemma sink_eq_trans: "sink_eq a b \<Longrightarrow> sink_eq b c \<Longrightarrow> sink_eq a c"
  by (simp add: sink_eq_def)

lemma sink_eq_sym: "sink_eq a b \<Longrightarrow> sink_eq b a"
  by (simp add: sink_eq_def)

lemma loop_specI:
  assumes "fst R = fst E" "sink_eq (snd R) (snd E)"
    "\<And>s'. s' \<noteq> s \<Longrightarrow> buffers (snd R) s' = buffers r s' \<and> truncated (snd R) s' = truncated r s'"
    "fst R = None \<Longrightarrow> buffers (snd R) s = fst (snd A) \<and> truncated (snd R) s = snd (snd A)"
    "fst R \<noteq> None \<Longrightarrow>
       (buffers (snd R) s = buffers r s \<and> truncated (snd R) s = truncated r s)
     \<or> (buffers (snd R) s = [] \<and> \<not> truncated (snd R) s)"
    "R = Record_loop J r s now buf tr data" "A = assemble (maxLineLength r) buf tr data"
    "E = emit_all J r now s (fst A)"
  shows "loop_spec J r s now buf tr data"
  using assms by (simp add: loop_spec_def Let_def)

lemma loop_specD:
  assumes "loop_spec J r s now buf tr data"
    "R = Record_loop J r s now buf tr data" "A = assemble (maxLineLength r) buf tr data"
    "E = emit_all J r now s (fst A)"
  shows "fst R = fst E" "sink_eq (snd R) (snd E)"
    "\<And>s'. s' \<noteq> s \<Longrightarrow> buffers (snd R) s' = buffers r s' \<and> truncated (snd R) s' = truncated r s'"
    "fst R = None \<Longrightarrow> buffers (snd R) s = fst (snd A) \<and> truncated (snd R) s = snd (snd A)"
    "fst R \<noteq> None \<Longrightarrow>
       (buffers (snd R) s = buffers r s \<and> truncated (snd R) s = truncated r s)
     \<or> (buffers (snd R) s = [] \<and> \<not> truncated (snd R) s)"
  using assms by (simp_all add: loop_spec_def Let_def)

lemma loop_spec_step:
  assumes W: "W = writeRecord J r0 now s d t"
    and r0: "sink_eq r0 r" "\<forall>s'. s' \<noteq> s \<longrightarrow> buffers r0 s' = buffers r s' \<and> truncated r0 s' = truncated r s'"
      "(buffers r0 s = buffers r s \<and> truncated r0 s = truncated r s) \<or> (buffers r0 s = [] \<and> \<not> truncated r0 s)"
    and R: "Record_loop J r s now buf tr data =
             (if fst W = None then Record_loop J (upd (snd W)) s now [] False rest else W)"
    and A: "assemble (maxLineLength r) buf tr data =
             ((d, t) # fst (assemble (maxLineLength r) [] False rest),
              snd (assemble (maxLineLength r) [] False rest))"
    and upd: "\<And>x. sink_eq (upd x) x" "\<And>x s'. s' \<noteq> s \<Longrightarrow> buffers (upd x) s' = buffers x s' \<and> truncated (upd x) s' = truncated x s'"
    and updW: "buffers (upd (snd W)) s = [] \<and> \<not> truncated (upd (snd W)) s"
    and IH: "fst W = None \<Longrightarrow> loop_spec J (upd (snd W)) s now [] False rest"
  shows "loop_spec J r s now buf tr data"
proof -
  let ?W' = "writeRecord J r now s d t"
  let ?ems = "fst (assemble (maxLineLength r) [] False rest)"
  have ww: "fst W = fst ?W'" "sink_eq (snd W) (snd ?W')"
    using writeRecord_sink_eq [OF r0(1), of J now s d t] W by simp_all
  have fr: "buffers (snd W) = buffers r0" "truncated (snd W) = truncated r0"
    "maxLineLength (snd W) = maxLineLength r0"
    using W by simp_all
  have ml: "maxLineLength r0 = maxLineLength r" using r0(1) by (simp add: sink_eq_def)
  have fstA: "fst (assemble (maxLineLength r) buf tr data) = (d, t) # ?ems"
    and sndA: "snd (assemble (maxLineLength r) buf tr data) = snd (assemble (maxLineLength r) [] False rest)"
    by (simp_all add: A)
  show ?thesis
  proof (cases "fst W = None")
    case True
    let ?u = "upd (snd W)"
    let ?R' = "Record_loop J ?u s now [] False rest"
    have mlu: "maxLineLength ?u = maxLineLength r"
      using upd(1) [of "snd W"] fr ml by (simp add: sink_eq_def)
    have se: "sink_eq ?u (snd ?W')"
      using upd(1) [of "snd W"] ww(2) by (rule sink_eq_trans)
    note E = emit_all_sink_eq [OF se, of J now s ?ems]
    note D = loop_specD [OF IH [OF True] refl refl refl, unfolded mlu]
    have Req: "Record_loop J r s now buf tr data = ?R'" using R True by simp
    have nn: "(fst ?W' = None) = True" using True ww(1) by simp
    have Eeq: "emit_all J r now s ((d, t) # ?ems) = emit_all J (snd ?W') now s ?ems"
      by (simp only: emit_all_Cons nn if_True)
    show ?thesis
    proof (rule loop_specI [OF _ _ _ _ _ refl refl refl])
      show "fst (Record_loop J r s now buf tr data)
          = fst (emit_all J r now s (fst (assemble (maxLineLength r) buf tr data)))"
        unfolding Req fstA Eeq using D(1) E by simp
      show "sink_eq (snd (Record_loop J r s now buf tr data))
             (snd (emit_all J r now s (fst (assemble (maxLineLength r) buf tr data))))"
        unfolding Req fstA Eeq using D(2) E by (blast intro: sink_eq_trans)
      show "buffers (snd (Record_loop J r s now buf tr data)) s' = buffers r s' \<and>
            truncated (snd (Record_loop J r s now buf tr data)) s' = truncated r s'"
        if "s' \<noteq> s" for s'
        unfolding Req using D(3) [OF that] upd(2) [OF that, of "snd W"] fr r0(2) that by simp
      show "buffers (snd (Record_loop J r s now buf tr data)) s
              = fst (snd (assemble (maxLineLength r) buf tr data)) \<and>
            truncated (snd (Record_loop J r s now buf tr data)) s
              = snd (snd (assemble (maxLineLength r) buf tr data))"
        if "fst (Record_loop J r s now buf tr data) = None"
        using that D(4) unfolding Req sndA by simp
      show "(buffers (snd (Record_loop J r s now buf tr data)) s = buffers r s \<and>
             truncated (snd (Record_loop J r s now buf tr data)) s = truncated r s)
          \<or> (buffers (snd (Record_loop J r s now buf tr data)) s = [] \<and>
             \<not> truncated (snd (Record_loop J r s now buf tr data)) s)"
        if "fst (Record_loop J r s now buf tr data) \<noteq> None"
        using that D(5) updW unfolding Req by auto
    qed
  next
    case False
    have Req: "Record_loop J r s now buf tr data = W" using R False by simp
    have nn: "(fst ?W' = None) = False" using False ww(1) by simp
    have Eeq: "emit_all J r now s ((d, t) # ?ems) = ?W'"
      by (simp only: emit_all_Cons nn if_False)
    show ?thesis
    proof (rule loop_specI [OF _ _ _ _ _ refl refl refl])
      show "fst (Record_loop J r s now buf tr data)
          = fst (emit_all J r now s (fst (assemble (maxLineLength r) buf tr data)))"
        unfolding Req fstA Eeq by (rule ww(1))
      show "sink_eq (snd (Record_loop J r s now buf tr data))
             (snd (emit_all J r now s (fst (assemble (maxLineLength r) buf tr data))))"
        unfolding Req fstA Eeq by (rule ww(2))
      show "buffers (snd (Record_loop J r s now buf tr data)) s' = buffers r s' \<and>
            truncated (snd (Record_loop J r s now buf tr data)) s' = truncated r s'"
        if "s' \<noteq> s" for s'
        unfolding Req using fr r0(2) that by simp
      show "buffers (snd (Record_loop J r s now buf tr data)) s
              = fst (snd (assemble (maxLineLength r) buf tr data)) \<and>
            truncated (snd (Record_loop J r s now buf tr data)) s
              = snd (snd (assemble (maxLineLength r) buf tr data))"
        if "fst (Record_loop J r s now buf tr data) = None"
        using that False unfolding Req by simp
      show "(buffers (snd (Record_loop J r s now buf tr data)) s = buffers r s \<and>
             truncated (snd (Record_loop J r s now buf tr data)) s = truncated r s)
          \<or> (buffers (snd (Record_loop J r s now buf tr data)) s = [] \<and>
             \<not> truncated (snd (Record_loop J r s now buf tr data)) s)"
        if "fst (Record_loop J r s now buf tr data) \<noteq> None"
        unfolding Req using fr r0(3) by simp
    qed
  qed
qed

lemma Record_loop_assemble:
  "buf = buffers r s \<Longrightarrow> tr = truncated r s \<Longrightarrow> loop_spec J r s now buf tr data"
proof (induction "length data" arbitrary: r buf tr data rule: less_induct)
  case less
  show ?case
  proof (cases "IndexByte data LF")
    case None
    then show ?thesis
      using less.prems
      by (cases tr; cases "data = []")
         (auto simp: loop_spec_def Let_def Record_loop_nil Record_loop_T_None Record_loop_F_None
            assemble_T_None assemble_F_None)
  next
    case (Some idx)
    then have ne: "data \<noteq> []" by auto
    have sh: "\<And>xs. length xs = length data \<Longrightarrow> length (drop (Suc idx) xs) < length data"
      using ne by (cases data) auto
    show ?thesis
    proof (cases tr)
      case True
      then have trT: "tr = True" by simp
      define W where "W = writeRecord J r now s (buf @ extractLineEnding buf (take (Suc idx) data)) True"
      show ?thesis
      proof (rule loop_spec_step [where
            upd = "\<lambda>x. x\<lparr>buffers := (buffers x)(s := []), truncated := (truncated x)(s := False)\<rparr>"
            and ?r0.0 = r and rest = "drop (Suc idx) data", OF W_def])
        show "Record_loop J r s now buf tr data =
          (if fst W = None
           then Record_loop J
             ((snd W)\<lparr>buffers := (buffers (snd W))(s := []), truncated := (truncated (snd W))(s := False)\<rparr>)
             s now [] False (drop (Suc idx) data)
           else W)"
          unfolding trT by (rule Record_loop_T_Some_if [OF Some W_def])
        show "assemble (maxLineLength r) buf tr data =
          ((buf @ extractLineEnding buf (take (Suc idx) data), True)
             # fst (assemble (maxLineLength r) [] False (drop (Suc idx) data)),
           snd (assemble (maxLineLength r) [] False (drop (Suc idx) data)))"
          unfolding trT by (rule assemble_T_Some [OF Some])
        show "loop_spec J
           ((snd W)\<lparr>buffers := (buffers (snd W))(s := []), truncated := (truncated (snd W))(s := False)\<rparr>)
           s now [] False (drop (Suc idx) data)"
          by (rule less.hyps) (use sh in auto)
      qed (auto simp: sink_eq_def)
    next
      case False
      then have trF: "tr = False" by simp
      let ?line = "buf @ take (Suc idx) data"
      define r0 where "r0 = (if buf \<noteq> [] then r\<lparr>buffers := (buffers r)(s := [])\<rparr> else r)"
      have r0b: "buffers r0 s = []" "truncated r0 s = False"
        using less.prems False by (auto simp: r0_def)
      have r0s: "sink_eq r0 r"
        "\<forall>s'. s' \<noteq> s \<longrightarrow> buffers r0 s' = buffers r s' \<and> truncated r0 s' = truncated r s'"
        "(buffers r0 s = buffers r s \<and> truncated r0 s = truncated r s) \<or> (buffers r0 s = [] \<and> \<not> truncated r0 s)"
        using less.prems trF by (auto simp: r0_def)
      show ?thesis
      proof (cases "maxLineLength r > 0 \<and> int (length ?line) > maxLineLength r")
        case over: True
        let ?le = "extractLineEndingFromLine ?line"
        define d where "d = take (nat (maxLineLength r)) ?line @ ?le"
        define rest where
          "rest = drop (Suc idx) (if buf = [] then appendInPlace data (nat (maxLineLength r)) ?le else data)"
        define W where "W = writeRecord J r0 now s d True"
        have len: "length rest < length data"
          unfolding rest_def by (rule sh) simp
        show ?thesis
        proof (rule loop_spec_step [where upd = "\<lambda>x. x" and ?r0.0 = r0 and rest = rest, OF W_def r0s])
          show "Record_loop J r s now buf tr data =
            (if fst W = None then Record_loop J (snd W) s now [] False rest else W)"
            unfolding trF rest_def
            by (rule Record_loop_F_Some_over [OF Some over r0_def]) (simp add: W_def d_def)
          show "assemble (maxLineLength r) buf tr data =
            ((d, True) # fst (assemble (maxLineLength r) [] False rest),
             snd (assemble (maxLineLength r) [] False rest))"
            unfolding trF d_def by (rule assemble_F_Some_over [OF Some over rest_def])
          show "loop_spec J (snd W) s now [] False rest"
            by (rule less.hyps [OF len]) (use r0b in \<open>simp_all add: W_def\<close>)
        qed (use r0b in \<open>auto simp: W_def\<close>)
      next
        case within: False
        let ?rest = "drop (Suc idx) data"
        define W where "W = writeRecord J r0 now s ?line False"
        have len: "length ?rest < length data" by (rule sh) simp
        show ?thesis
        proof (rule loop_spec_step [where upd = "\<lambda>x. x" and ?r0.0 = r0 and rest = ?rest, OF W_def r0s])
          show "Record_loop J r s now buf tr data =
            (if fst W = None then Record_loop J (snd W) s now [] False ?rest else W)"
            unfolding trF
            by (rule Record_loop_F_Some_within [OF Some within r0_def W_def])
          show "assemble (maxLineLength r) buf tr data =
            ((?line, False) # fst (assemble (maxLineLength r) [] False ?rest),
             snd (assemble (maxLineLength r) [] False ?rest))"
            unfolding trF by (rule assemble_F_Some_within [OF Some within])
          show "loop_spec J (snd W) s now [] False ?rest"
            by (rule less.hyps [OF len]) (use r0b in \<open>simp_all add: W_def\<close>)
        qed (use r0b in \<open>auto simp: W_def\<close>)
      qed
    qed
  qed
qed

subsection \<open>The writer\<close>

lemma writeRecord_Written:
  "outcome r (attempts r) = Written \<Longrightarrow>
   writeRecord J r now s d t =
     (None, r\<lparr>seq := seq r + 1, attempts := attempts r + 1,
               written := written r @ [(NewRecord J (seq r) now (Source_String s) d)\<lparr>Truncated := t\<rparr>]\<rparr>)"
  by (simp add: writeRecord_def Let_def)

lemma writeRecord_fails:
  "outcome r (attempts r) \<noteq> Written \<Longrightarrow>
   fst (writeRecord J r now s d t) \<noteq> None \<and>
   snd (writeRecord J r now s d t) = r\<lparr>seq := seq r + 1, attempts := attempts r + 1\<rparr>"
  by (cases "outcome r (attempts r)") (simp_all add: writeRecord_def Let_def)

lemma writeRecord_written:
  "written (snd (writeRecord J r now s d t)) =
     written r @ (if outcome r (attempts r) = Written
                  then [(NewRecord J (seq r) now (Source_String s) d)\<lparr>Truncated := t\<rparr>] else [])"
  by (cases "outcome r (attempts r)") (simp_all add: writeRecord_def Let_def)

lemma emitted_here:
  "emitted J now s ((d, t) # ems) ((NewRecord J sq now (Source_String s) d)\<lparr>Truncated := t\<rparr>)"
  unfolding emitted_def by (intro exI [of _ sq] exI [of _ d] exI [of _ t]) simp

lemma emitted_later: "emitted J now s ems rec \<Longrightarrow> emitted J now s (a # ems) rec"
  unfolding emitted_def by (elim exE conjE, intro exI conjI) (erule list.set_intros(2), assumption)

lemma emit_all_written:
  "\<exists>recs. written (snd (emit_all J r now s ems)) = written r @ recs \<and>
     (\<forall>rec\<in>set recs. emitted J now s ems rec)"
proof (induction ems arbitrary: r)
  case Nil
  then show ?case by simp
next
  case (Cons a ems)
  obtain d t where a: "a = (d, t)" by (cases a)
  let ?W = "writeRecord J r now s d t"
  let ?rec = "(NewRecord J (seq r) now (Source_String s) d)\<lparr>Truncated := t\<rparr>"
  let ?new = "(if outcome r (attempts r) = Written then [?rec] else [])"
  have new: "\<forall>rec\<in>set ?new. emitted J now s (a # ems) rec"
    unfolding a using emitted_here [of J now s d t ems "seq r"] by simp
  show ?case
  proof (cases "fst ?W = None")
    case True
    from Cons.IH [of "snd ?W"] obtain recs where
      r: "written (snd (emit_all J (snd ?W) now s ems)) = written (snd ?W) @ recs"
      "\<forall>rec\<in>set recs. emitted J now s ems rec"
      by blast
    have "written (snd (emit_all J r now s (a # ems))) = written r @ (?new @ recs)"
      unfolding a emit_all_Cons_None [OF True] using r(1) by (simp add: writeRecord_written)
    moreover have "\<forall>rec\<in>set (?new @ recs). emitted J now s (a # ems) rec"
      using new r(2) emitted_later [of J now s ems _ a] by (simp add: ball_Un)
    ultimately show ?thesis by blast
  next
    case False
    have "written (snd (emit_all J r now s (a # ems))) = written r @ ?new"
      unfolding a emit_all_Cons_Some [OF False] by (simp add: writeRecord_written)
    with new show ?thesis by blast
  qed
qed

lemma Record_loop_spec:
  "loop_spec J r s now (buffers r s) (truncated r s) data"
  by (rule Record_loop_assemble) simp_all

lemma Record_eq_loop:
  "Record J r s data now = Record_loop J r s now (buffers r s) (truncated r s) data"
  by (simp add: Record_def Record_loop_nil)

lemma Record_written:
  "\<exists>recs. written (snd (Record J r s data now)) = written r @ recs \<and>
     (\<forall>rec\<in>set recs.
        emitted J now s (fst (assemble (maxLineLength r) (buffers r s) (truncated r s) data)) rec)"
proof -
  note D = loop_specD [OF Record_loop_spec [of J r s now data] refl refl refl]
  from D(2) have "written (snd (Record J r s data now))
      = written (snd (emit_all J r now s
            (fst (assemble (maxLineLength r) (buffers r s) (truncated r s) data))))"
    by (simp add: sink_eq_def Record_eq_loop)
  with emit_all_written [of J r now s
      "fst (assemble (maxLineLength r) (buffers r s) (truncated r s) data)"]
  show ?thesis by simp
qed

subsection \<open>Line endings\<close>

lemma extractLineEndingFromLine_LF:
  "extractLineEndingFromLine (xs @ [LF]) = [LF] \<or> extractLineEndingFromLine (xs @ [LF]) = [CR, LF]"
  by (simp add: extractLineEndingFromLine_def)

lemma extractLineEndingFromLine_cases:
  "extractLineEndingFromLine (xs @ [LF]) = (if xs \<noteq> [] \<and> last xs = CR then [CR, LF] else [LF])"
proof (cases xs rule: rev_cases)
  case Nil
  then show ?thesis by (simp add: extractLineEndingFromLine_def)
next
  case (snoc ys y)
  then show ?thesis by (simp add: extractLineEndingFromLine_def nth_append)
qed

lemma splitTrailingCRLF_end_le: "splitTrailingCRLF_end data n \<le> n"
proof (induction n)
  case 0
  then show ?case by (simp add: splitTrailingCRLF_end.simps)
next
  case (Suc n)
  then show ?case by (subst splitTrailingCRLF_end.simps) auto
qed


lemma splitTrailingCRLF_LF:
  "snd (splitTrailingCRLF (xs @ [LF])) \<noteq> [] \<and> last (snd (splitTrailingCRLF (xs @ [LF]))) = LF"
proof -
  let ?d = "xs @ [LF]"
  have "splitTrailingCRLF_end ?d (length ?d) = splitTrailingCRLF_end ?d (length xs)"
    by (subst splitTrailingCRLF_end.simps) simp
  also have "\<dots> \<le> length xs" by (rule splitTrailingCRLF_end_le)
  finally have "splitTrailingCRLF_end ?d (length ?d) \<le> length xs" .
  then show ?thesis
    by (simp add: splitTrailingCRLF_def Let_def)
qed

subsection \<open>The classifier\<close>

lemma NewRecord_End:
  "End (NewRecord J sq now name d) = [] \<or> End (NewRecord J sq now name d) = snd (splitTrailingCRLF d)"
  by (simp add: NewRecord_def Let_def split: option.splits prod.splits)

lemma NewRecord_End_not_CR:
  "End ((NewRecord J sq now name (xs @ [LF]))\<lparr>Truncated := t\<rparr>) \<noteq> [CR]"
  using NewRecord_End [of J sq now name "xs @ [LF]"] splitTrailingCRLF_LF [of xs]
  by auto

subsection \<open>What \<open>assemble\<close> lists\<close>

lemma assemble_no_LF:
  "LF \<notin> set data \<Longrightarrow> fst (assemble limit buf tr data) = []"
  by (cases tr) (simp_all add: assemble_T_None assemble_F_None IndexByte_None)

lemma assemble_ends_LF:
  "(d, t) \<in> set (fst (assemble limit buf tr data)) \<Longrightarrow> \<exists>xs. d = xs @ [LF]"
proof (induction "length data" arbitrary: buf tr data rule: less_induct)
  case less
  show ?case
  proof (cases "IndexByte data LF")
    case None
    with less.prems show ?thesis
      by (cases tr) (simp_all add: assemble_T_None assemble_F_None split: if_splits)
  next
    case (Some idx)
    then have ne: "data \<noteq> []" by auto
    have sh: "\<And>xs. length xs = length data \<Longrightarrow> length (drop (Suc idx) xs) < length data"
      using ne by (cases data) auto
    from IndexByte_Some_split [OF Some]
    have tk: "take (Suc idx) data = take idx data @ [LF]" by simp
    have le1: "\<exists>xs. buf @ extractLineEnding buf (take (Suc idx) data) = xs @ [LF]"
      using extractLineEndingFromLine_LF [of "buf @ take idx data"]
      by (auto simp: extractLineEnding_def tk)
    have le2: "\<exists>xs. take n (buf @ take (Suc idx) data)
                   @ extractLineEndingFromLine (buf @ take (Suc idx) data) = xs @ [LF]" for n
      using extractLineEndingFromLine_LF [of "buf @ take idx data"]
      by (auto simp: tk)
    show ?thesis
    proof (cases tr)
      case True
      with less.prems have "(d, t) = (buf @ extractLineEnding buf (take (Suc idx) data), True)
          \<or> (d, t) \<in> set (fst (assemble limit [] False (drop (Suc idx) data)))"
        by (simp add: assemble_T_Some [OF Some])
      then show ?thesis
        using le1 less.hyps [OF sh [OF refl]] by auto
    next
      case False
      show ?thesis
      proof (cases "limit > 0 \<and> int (length (buf @ take (Suc idx) data)) > limit")
        case over: True
        define rest where "rest = drop (Suc idx)
            (if buf = [] then appendInPlace data (nat limit)
                                (extractLineEndingFromLine (buf @ take (Suc idx) data))
             else data)"
        have len: "length rest < length data" unfolding rest_def by (rule sh) simp
        from less.prems False
        have "(d, t) = (take (nat limit) (buf @ take (Suc idx) data)
                   @ extractLineEndingFromLine (buf @ take (Suc idx) data), True)
          \<or> (d, t) \<in> set (fst (assemble limit [] False rest))"
          by (simp add: assemble_F_Some_over [OF Some over rest_def])
        then show ?thesis
          using le2 less.hyps [OF len] by auto
      next
        case within: False
        from less.prems \<open>\<not> tr\<close>
        have "(d, t) = (buf @ take (Suc idx) data, False)
          \<or> (d, t) \<in> set (fst (assemble limit [] False (drop (Suc idx) data)))"
          by (simp add: assemble_F_Some_within [OF Some within])
        then show ?thesis
          using tk less.hyps [OF sh [OF refl]] by auto
      qed
    qed
  qed
qed


subsection \<open>Running the model on explicit lines\<close>

lemmas trim_eval = TrimSpace_def TrimLeft.simps TrimRight.simps leadingSpace_def trailingSpace_def
  asciiSpace_def spaceRunes_def suffix_to_prefix

lemmas scan_eval = json_Valid_def scanner_reset_def scanner_step_def scanner_eof_def
  scanner_error_def stateBeginValue_def stateBeginValueOrEmpty_def stateBeginString_def
  stateBeginStringOrEmpty_def stateEndValue_def stateEndTop_def stateInString_def
  stateInStringEsc_def stateHex_def state0_def state1_def stateNeg_def stateDot_def
  stateDot0_def stateE_def stateESign_def stateE0_def stateLit_def pushParseState_def
  popParseState_def isSpace_def isDigit_def isHex_def inRange_def maxNestingDepth_def

lemmas split_eval = splitTrailingCRLF_def splitTrailingCRLF_end.simps

lemmas format_eval = Format_def clock0_def appendInt_def decimal.simps char_of_eq_iff

lemma pair_collapse: "(if fst W = None then (None, snd W) else W) = W"
  by (cases W) auto

lemma Record_loop_line_within:
  assumes "LF \<notin> set body"
    and "\<not> (maxLineLength r > 0 \<and> int (length (buf @ body @ [LF])) > maxLineLength r)"
    and "W = writeRecord J (if buf \<noteq> [] then r\<lparr>buffers := (buffers r)(s := [])\<rparr> else r) now s
               (buf @ body @ [LF]) False"
  shows "Record_loop J r s now buf False (body @ LF # rest) =
     (if fst W = None then Record_loop J (snd W) s now [] False rest else W)"
proof -
  have I: "IndexByte (body @ LF # rest) LF = Some (length body)"
    by (rule IndexByte_append [OF assms(1)])
  have tk: "take (Suc (length body)) (body @ LF # rest) = body @ [LF]"
    "drop (Suc (length body)) (body @ LF # rest) = rest"
    by simp_all
  show ?thesis
    using Record_loop_F_Some_within [OF I _ refl refl, of r buf J s now] assms(2)
    unfolding tk assms(3) by simp
qed

lemma Record_loop_line_over:
  assumes "LF \<notin> set body"
    and "maxLineLength r > 0 \<and> int (length (buf @ body @ [LF])) > maxLineLength r"
    and "W = writeRecord J (if buf \<noteq> [] then r\<lparr>buffers := (buffers r)(s := [])\<rparr> else r) now s
               (take (nat (maxLineLength r)) (buf @ body @ [LF])
                  @ extractLineEndingFromLine (buf @ body @ [LF])) True"
  shows "Record_loop J r s now buf False (body @ LF # rest) =
     (if fst W = None
      then Record_loop J (snd W) s now [] False
             (drop (Suc (length body))
                (if buf = [] then appendInPlace (body @ LF # rest) (nat (maxLineLength r))
                                    (extractLineEndingFromLine (buf @ body @ [LF]))
                 else body @ LF # rest))
      else W)"
proof -
  have I: "IndexByte (body @ LF # rest) LF = Some (length body)"
    by (rule IndexByte_append [OF assms(1)])
  have tk: "take (Suc (length body)) (body @ LF # rest) = body @ [LF]"
    by simp
  show ?thesis
    unfolding assms(3)
    by (rule Record_loop_F_Some_over [OF I _ refl refl, of r buf J s now, unfolded tk, OF assms(2)])
qed

lemma Record_line_within:
  assumes "LF \<notin> set body" and "\<not> truncated r s"
    and "\<not> (maxLineLength r > 0 \<and> int (length (buffers r s @ body @ [LF])) > maxLineLength r)"
  shows "Record J r s (body @ [LF]) now =
     writeRecord J (r\<lparr>buffers := (buffers r)(s := [])\<rparr>) now s (buffers r s @ body @ [LF]) False"
proof -
  have e: "(if buffers r s \<noteq> [] then r\<lparr>buffers := (buffers r)(s := [])\<rparr> else r)
         = r\<lparr>buffers := (buffers r)(s := [])\<rparr>"
    by (cases "buffers r s = []") (simp_all add: fun_upd_idem)
  have "Record J r s (body @ [LF]) now = Record_loop J r s now (buffers r s) False (body @ LF # [])"
    using assms(2) by (simp add: Record_eq_loop)
  also have "\<dots> = writeRecord J (r\<lparr>buffers := (buffers r)(s := [])\<rparr>) now s (buffers r s @ body @ [LF]) False"
    by (subst Record_loop_line_within [OF assms(1) assms(3) refl])
       (simp only: e Record_loop_nil pair_collapse)
  finally show ?thesis .
qed

lemma NewRecord_text:
  assumes "\<not> (TrimSpace d \<noteq> [] \<and> Valid J (TrimSpace d) \<and> Unmarshal J (TrimSpace d) \<noteq> None)"
    and "utf8_Valid d"
  shows "NewRecord J sq now name d =
     \<lparr>Seq = sq, Timestamp = Format now, Source = name, Content = Str (fst (splitTrailingCRLF d)),
      Encoding = ''text'', End = snd (splitTrailingCRLF d), Truncated = False\<rparr>"
  using assms by (auto simp: NewRecord_def Let_def split: option.splits prod.splits)

lemma NewRecord_base64:
  assumes "\<not> (TrimSpace d \<noteq> [] \<and> Valid J (TrimSpace d) \<and> Unmarshal J (TrimSpace d) \<noteq> None)"
    and "\<not> utf8_Valid d"
  shows "NewRecord J sq now name d =
     \<lparr>Seq = sq, Timestamp = Format now, Source = name, Content = Str (EncodeToString d),
      Encoding = ''base64'', End = [], Truncated = False\<rparr>"
  using assms by (auto simp: NewRecord_def Let_def split: option.splits prod.splits)

lemma NewRecord_json:
  assumes "TrimSpace d \<noteq> []" "Valid J (TrimSpace d)" "Unmarshal J (TrimSpace d) = Some v"
  shows "NewRecord J sq now name d =
     \<lparr>Seq = sq, Timestamp = Format now, Source = name, Content = Parsed v,
      Encoding = ''json'', End = [], Truncated = False\<rparr>"
  using assms by (simp add: NewRecord_def Let_def)


subsection \<open>Sequencing\<close>

lemma step_ok_refl: "step_ok r 0 r"
  by (simp add: step_ok_def)

lemma step_ok_trans: "step_ok a m b \<Longrightarrow> step_ok b n c \<Longrightarrow> step_ok a (m + n) c"
  by (simp add: step_ok_def)

lemma seq_inv_sink_eq: "sink_eq r r' \<Longrightarrow> seq_inv r = seq_inv r'"
  by (simp add: sink_eq_def seq_inv_def)

lemma failures_sink_eq: "sink_eq r r' \<Longrightarrow> failures r = failures r'"
  by (simp add: sink_eq_def failures_def)

lemma step_ok_sink_eq: "sink_eq a a' \<Longrightarrow> sink_eq b b' \<Longrightarrow> step_ok a n b \<Longrightarrow> step_ok a' n b'"
  using seq_inv_sink_eq [of a a'] seq_inv_sink_eq [of b b']
    failures_sink_eq [of a a'] failures_sink_eq [of b b']
  by (simp add: step_ok_def) (simp add: sink_eq_def)

lemma writeRecord_step_ok:
  "step_ok r (if fst (writeRecord J r now s d t) = None then 0 else 1) (snd (writeRecord J r now s d t))"
proof (cases "outcome r (attempts r) = Written")
  case True
  have "seq_inv r \<Longrightarrow>
        seq_inv (r\<lparr>seq := seq r + 1, attempts := attempts r + 1,
               written := written r @ [(NewRecord J (seq r) now (Source_String s) d)\<lparr>Truncated := t\<rparr>]\<rparr>)"
    using True by (simp add: seq_inv_def NewRecord_def Let_def split: option.splits prod.splits)
  then show ?thesis
    using True by (simp add: writeRecord_Written step_ok_def failures_def)
next
  case False
  note f = writeRecord_fails [OF False, of J now s d t]
  have "seq_inv r \<Longrightarrow> seq_inv (r\<lparr>seq := seq r + 1, attempts := attempts r + 1\<rparr>)"
    using False by (simp add: seq_inv_def)
  then show ?thesis
    using False f by (simp add: step_ok_def failures_def)
qed

lemma emit_all_step_ok:
  "step_ok r (if fst (emit_all J r now s ems) = None then 0 else 1) (snd (emit_all J r now s ems))"
proof (induction ems arbitrary: r)
  case Nil
  then show ?case by (simp add: step_ok_refl)
next
  case (Cons a ems)
  obtain d t where a: "a = (d, t)" by (cases a)
  let ?W = "writeRecord J r now s d t"
  show ?case
  proof (cases "fst ?W")
    case None
    from writeRecord_step_ok [of r J now s d t] None have "step_ok r 0 (snd ?W)" by simp
    from step_ok_trans [OF this Cons.IH [of "snd ?W"]]
    show ?thesis unfolding a emit_all_Cons_None [OF None] by simp
  next
    case (Some e)
    then have nn: "fst ?W \<noteq> None" by simp
    from writeRecord_step_ok [of r J now s d t] Some
    show ?thesis unfolding a emit_all_Cons_Some [OF nn] by simp
  qed
qed

lemma Record_step_ok:
  "step_ok r (if fst (Record J r s data now) = None then 0 else 1) (snd (Record J r s data now))"
proof -
  note D = loop_specD [OF Record_loop_spec [of J r s now data] refl refl refl]
  let ?E = "emit_all J r now s (fst (assemble (maxLineLength r) (buffers r s) (truncated r s) data))"
  have se: "sink_eq (snd ?E) (snd (Record J r s data now))"
    unfolding Record_eq_loop by (rule sink_eq_sym [OF D(2)])
  from step_ok_sink_eq [OF sink_eq_refl se emit_all_step_ok]
  show ?thesis by (simp add: Record_eq_loop D(1))
qed

lemma Flush_step_ok:
  "step_ok r (if fst (Flush J r s now) = None then 0 else 1) (snd (Flush J r s now))"
proof (cases "buffers r s = []")
  case True
  then have "Flush J r s now = (None, r\<lparr>truncated := (truncated r)(s := False)\<rparr>)"
    by (simp add: Flush_def)
  then show ?thesis
    using step_ok_sink_eq [OF sink_eq_refl _ step_ok_refl, of r "r\<lparr>truncated := (truncated r)(s := False)\<rparr>"]
    by simp
next
  case False
  let ?r1 = "r\<lparr>buffers := (buffers r)(s := []), truncated := (truncated r)(s := False)\<rparr>"
  have F: "Flush J r s now = writeRecord J ?r1 now s (buffers r s) (truncated r s)"
    using False by (simp add: Flush_def Let_def writeTruncatedRecord_def)
  have "sink_eq ?r1 r" by simp
  from step_ok_sink_eq [OF this sink_eq_refl writeRecord_step_ok]
  show ?thesis unfolding F .
qed

lemma do_call_step_ok:
  "step_ok r (if fst (do_call J r c) = None then 0 else 1) (snd (do_call J r c))"
  by (cases c) (simp_all add: Record_step_ok Flush_step_ok)

lemma run_Cons:
  "run J r (c # cs) = (fst (do_call J r c) # fst (run J (snd (do_call J r c)) cs),
                        snd (run J (snd (do_call J r c)) cs))"
  by (simp add: case_prod_beta)

lemma errors_Cons: "errors (e # es) = (if e = None then 0 else 1) + errors es"
  by (simp add: errors_def)

lemma run_step_ok: "step_ok r (errors (fst (run J r cs))) (snd (run J r cs))"
proof (induction cs arbitrary: r)
  case Nil
  then show ?case by (simp add: step_ok_refl errors_def)
next
  case (Cons c cs)
  have e1: "errors (fst (run J r (c # cs))) =
      (if fst (do_call J r c) = None then 0 else 1) + errors (fst (run J (snd (do_call J r c)) cs))"
    by (simp only: run_Cons fst_conv errors_Cons)
  have e2: "snd (run J r (c # cs)) = snd (run J (snd (do_call J r c)) cs)"
    by (simp only: run_Cons snd_conv)
  show ?case
    unfolding e1 e2
    by (rule step_ok_trans [OF do_call_step_ok [of r J c] Cons.IH [of "snd (do_call J r c)"]])
qed

lemma NewRecorder_seq_inv: "seq_inv (NewRecorder env limit)"
  by (simp add: seq_inv_def NewRecorder_def)

lemma run_NewRecorder:
  fixes r :: "'a Recorder"
  assumes "run J (NewRecorder env limit) calls = (es, r)"
  shows "seq_inv r" "failures r = errors es" "outcome r = env" "maxLineLength r = limit"
proof -
  from run_step_ok [of "NewRecorder env limit" J calls] assms
  have s: "step_ok (NewRecorder env limit) (errors es) r" by simp
  have f0: "failures (NewRecorder env limit :: 'a Recorder) = 0"
    by (simp add: failures_def NewRecorder_def)
  from s show "seq_inv r" by (simp add: step_ok_def NewRecorder_seq_inv)
  from s show "failures r = errors es" by (simp add: step_ok_def f0)
  from s show "outcome r = env" by (simp add: step_ok_def NewRecorder_def)
  from s show "maxLineLength r = limit" by (simp add: step_ok_def NewRecorder_def)
qed

lemma unat_seq_numbers:
  assumes "n \<le> 2 ^ 64"
  shows "map (unat \<circ> (of_nat :: nat \<Rightarrow> 64 word)) (filter P [0..<n]) = filter P [0..<n]"
proof (rule map_idI)
  fix k
  assume "k \<in> set (filter P [0..<n])"
  with assms have "k < 2 ^ 64" by simp
  then show "(unat \<circ> (of_nat :: nat \<Rightarrow> 64 word)) k = k"
    by (simp add: unat_of_nat)
qed

lemma seq_inv_numbers:
  assumes "seq_inv r" "attempts r \<le> 2 ^ 64"
  shows "map (unat \<circ> Seq) (written r) = filter (\<lambda>k. outcome r k = Written) [0..<attempts r]"
proof -
  have "map (unat \<circ> Seq) (written r) = map unat (map Seq (written r))" by simp
  also have "\<dots> = map (unat \<circ> (of_nat :: nat \<Rightarrow> 64 word))
                     (filter (\<lambda>k. outcome r k = Written) [0..<attempts r])"
    using assms(1) by (simp add: seq_inv_def)
  also have "\<dots> = filter (\<lambda>k. outcome r k = Written) [0..<attempts r]"
    by (rule unat_seq_numbers [OF assms(2)])
  finally show ?thesis .
qed

lemma no_failures_all_written:
  assumes "seq_inv r" "failures r = 0"
  shows "length (written r) = attempts r"
    and "filter (\<lambda>k. outcome r k = Written) [0..<attempts r] = [0..<attempts r]"
proof -
  from assms(2) have "\<forall>k\<in>set [0..<attempts r]. \<not> outcome r k \<noteq> Written"
    unfolding failures_def by (simp only: length_0_conv filter_empty_conv)
  then show f: "filter (\<lambda>k. outcome r k = Written) [0..<attempts r] = [0..<attempts r]"
    by (simp add: filter_id_conv)
  have "length (written r) = length (map Seq (written r))" by simp
  also have "\<dots> = attempts r"
    using assms(1) unfolding seq_inv_def f by simp
  finally show "length (written r) = attempts r" .
qed

lemma distinct_map_arg: "distinct (map f ys) \<Longrightarrow> distinct ys"
  by (simp add: distinct_map)


lemma NewRecord_Truncated: "(NewRecord J sq now name d)\<lparr>Truncated := False\<rparr> = NewRecord J sq now name d"
  by (simp add: NewRecord_def Let_def split: option.splits prod.splits)

lemma Record_line_accepted:
  assumes "LF \<notin> set body" "buffers r s = []" "\<not> truncated r s" "maxLineLength r = 0"
    and "outcome r (attempts r) = Written"
  shows "Record J r s (body @ [LF]) now =
     (None, r\<lparr>seq := seq r + 1, attempts := attempts r + 1,
               written := written r @ [NewRecord J (seq r) now (Source_String s) (body @ [LF])]\<rparr>)"
proof -
  have b: "r\<lparr>buffers := (buffers r)(s := [])\<rparr> = r"
    using assms(2) by (simp add: fun_upd_idem)
  have "Record J r s (body @ [LF]) now =
      writeRecord J (r\<lparr>buffers := (buffers r)(s := [])\<rparr>) now s (buffers r s @ body @ [LF]) False"
    by (rule Record_line_within [OF assms(1,3)]) (simp add: assms(4))
  then show ?thesis
    unfolding b using assms(2,5) by (simp add: writeRecord_Written NewRecord_Truncated)
qed

lemma Record_line_refused:
  assumes "LF \<notin> set body" "buffers r s = []" "\<not> truncated r s" "maxLineLength r = 0"
    and "outcome r (attempts r) = WriteFails"
  shows "Record J r s (body @ [LF]) now =
     (Some WriteError, r\<lparr>seq := seq r + 1, attempts := attempts r + 1\<rparr>)"
proof -
  have b: "r\<lparr>buffers := (buffers r)(s := [])\<rparr> = r"
    using assms(2) by (simp add: fun_upd_idem)
  have "Record J r s (body @ [LF]) now =
      writeRecord J (r\<lparr>buffers := (buffers r)(s := [])\<rparr>) now s (buffers r s @ body @ [LF]) False"
    by (rule Record_line_within [OF assms(1,3)]) (simp add: assms(4))
  then show ?thesis
    unfolding b using assms(5) by (simp add: writeRecord_def Let_def)
qed

lemma NewRecord_Seq [simp]: "Seq (NewRecord J sq now name d) = sq"
  by (simp add: NewRecord_def Let_def split: option.splits prod.splits)

lemma NewRecord_Source [simp]: "Source (NewRecord J sq now name d) = name"
  by (simp add: NewRecord_def Let_def split: option.splits prod.splits)

lemma NewRecord_Timestamp [simp]: "Timestamp (NewRecord J sq now name d) = Format now"
  by (simp add: NewRecord_def Let_def split: option.splits prod.splits)

lemma run_two_lines_healthy:
  "fst (run encoding_json (recorder0 0) two_lines) = [None, None]"
  "map Seq (written (snd (run encoding_json (recorder0 0) two_lines))) = [0, 1]"
  "attempts (snd (run encoding_json (recorder0 0) two_lines)) = 2"
  by (simp_all add: two_lines_def recorder0_def NewRecorder_def healthy_def case_prod_beta
        Record_line_accepted [where body = "''a''", simplified]
        Record_line_accepted [where body = "''b''", simplified])

lemma run_two_lines_refused:
  "fst (run encoding_json recorder1 two_lines) = [Some WriteError, None]"
  "map Seq (written (snd (run encoding_json recorder1 two_lines))) = [1]"
  "attempts (snd (run encoding_json recorder1 two_lines)) = 2"
  by (simp_all add: two_lines_def recorder1_def NewRecorder_def refuse_first_def case_prod_beta
        Record_line_refused [where body = "''a''", simplified]
        Record_line_accepted [where body = "''b''", simplified])


subsection \<open>Lines without a terminator, and \<open>Flush\<close>\<close>



lemma Flush_nonempty:
  assumes "buffers r source \<noteq> []"
  shows "Flush J r source now =
        writeRecord J
          (r\<lparr>buffers := (buffers r)(source := []), truncated := (truncated r)(source := False)\<rparr>)
          now source (buffers r source) (truncated r source)"
  using assms by (simp add: Flush_def Let_def writeTruncatedRecord_def)


section \<open>The serialized record\<close>

subsection \<open>The timestamp\<close>

lemma isDigit_char_of: "(n::nat) < 10 \<Longrightarrow> isDigit (char_of (0x30 + n))"
  by (simp add: isDigit_def inRange_def)

lemma decimal_digits: "list_all isDigit (decimal n)"
proof (induction n rule: decimal.induct)
  case (1 n)
  show ?case
  proof (cases "n < 10")
    case True
    then show ?thesis by (subst decimal.simps) (simp add: isDigit_char_of)
  next
    case False
    have "n mod 10 < 10" by simp
    then have "isDigit (char_of (0x30 + n mod 10))" by (rule isDigit_char_of)
    with False 1 show ?thesis by (subst decimal.simps) simp
  qed
qed

lemma decimal_length: "n < 10 ^ w \<Longrightarrow> 0 < w \<Longrightarrow> length (decimal n) \<le> w"
proof (induction w arbitrary: n)
  case 0
  then show ?case by simp
next
  case (Suc w)
  show ?case
  proof (cases "n < 10")
    case True
    then show ?thesis by (subst decimal.simps) simp
  next
    case False
    with Suc.prems have w: "0 < w" by (cases w) simp_all
    from Suc.prems have "n div 10 < 10 ^ w" by (simp add: less_mult_imp_div_less mult.commute)
    from Suc.IH [OF this w] False show ?thesis by (subst decimal.simps) simp
  qed
qed

lemma appendInt_shape:
  assumes "0 \<le> x" "nat x < 10 ^ w" "0 < w"
  shows "length (appendInt x w) = w \<and> list_all isDigit (appendInt x w)"
proof -
  have z: "isDigit (CHR ''0'')" by (simp add: isDigit_def inRange_def)
  have "nat \<bar>x\<bar> = nat x" using assms(1) by simp
  with decimal_length [OF assms(2,3)] decimal_digits [of "nat x"] assms(1) z
  show ?thesis by (auto simp: appendInt_def Let_def list_all_iff)
qed

lemma matchLayout_digits:
  "length ds = w \<Longrightarrow> list_all isDigit ds \<Longrightarrow>
   matchLayout (replicate w (CHR ''9'') @ ps) (ds @ cs) = matchLayout ps cs"
  by (induction ds arbitrary: w) auto

lemma Format_pattern:
  assumes "validClock t"
  shows "timestampPattern (Format t)"
proof -
  have y: "length (appendInt (year t) 4) = 4 \<and> list_all isDigit (appendInt (year t) 4)"
    using assms by (intro appendInt_shape) (auto simp: validClock_def)
  have mo: "length (appendInt (int (month t)) 2) = 2 \<and> list_all isDigit (appendInt (int (month t)) 2)"
    using assms by (intro appendInt_shape) (simp_all add: validClock_def)
  have d: "length (appendInt (int (day t)) 2) = 2 \<and> list_all isDigit (appendInt (int (day t)) 2)"
    using assms by (intro appendInt_shape) (simp_all add: validClock_def)
  have h: "length (appendInt (int (hour t)) 2) = 2 \<and> list_all isDigit (appendInt (int (hour t)) 2)"
    using assms by (intro appendInt_shape) (simp_all add: validClock_def)
  have mi: "length (appendInt (int (minute t)) 2) = 2 \<and> list_all isDigit (appendInt (int (minute t)) 2)"
    using assms by (intro appendInt_shape) (simp_all add: validClock_def)
  have s: "length (appendInt (int (second t)) 2) = 2 \<and> list_all isDigit (appendInt (int (second t)) 2)"
    using assms by (intro appendInt_shape) (simp_all add: validClock_def)
  have "nanosecond t < 1000 * 1000000"
    using assms by (simp add: validClock_def)
  then have "nanosecond t div 1000000 < 1000"
    by (rule less_mult_imp_div_less)
  then have ms: "length (appendInt (int (nanosecond t div 1000000)) 3) = 3
      \<and> list_all isDigit (appendInt (int (nanosecond t div 1000000)) 3)"
    by (intro appendInt_shape) simp_all
  have L: "''9999-99-99T99:99:99.999Z'' =
      replicate 4 (CHR ''9'') @ CHR ''-'' # replicate 2 (CHR ''9'') @ CHR ''-'' # replicate 2 (CHR ''9'')
      @ CHR ''T'' # replicate 2 (CHR ''9'') @ CHR '':'' # replicate 2 (CHR ''9'')
      @ CHR '':'' # replicate 2 (CHR ''9'') @ CHR ''.'' # replicate 3 (CHR ''9'') @ ''Z''"
    by (simp add: eval_nat_numeral)
  show ?thesis
    unfolding timestampPattern_def L Format_def
    using y mo d h mi s ms by (simp add: matchLayout_digits)
qed

subsection \<open>The records of a run\<close>

lemma NewRecord_Encoding:
  "Encoding (NewRecord J sq now name d) \<in> {''text'', ''json'', ''base64''}"
  by (simp add: NewRecord_def Let_def split: option.splits prod.splits)

lemma NewRecord_Content:
  "(Encoding (NewRecord J sq now name d) = ''json'') = (\<exists>v. Content (NewRecord J sq now name d) = Parsed v)"
  by (simp add: NewRecord_def Let_def split: option.splits prod.splits)

lemma Flush_written:
  "written (snd (Flush J r s now)) = written r \<or>
   (\<exists>d t. written (snd (Flush J r s now)) =
             written r @ [(NewRecord J (seq r) now (Source_String s) d)\<lparr>Truncated := t\<rparr>])"
proof (cases "buffers r s = []")
  case True
  then show ?thesis by (simp add: Flush_def)
next
  case False
  show ?thesis
  proof (cases "outcome r (attempts r) = Written")
    case True
    have "written (snd (Flush J r s now)) =
        written r @ [(NewRecord J (seq r) now (Source_String s) (buffers r s))\<lparr>Truncated := truncated r s\<rparr>]"
      unfolding Flush_nonempty [OF False] using True by (simp add: writeRecord_written)
    then show ?thesis by blast
  next
    case False
    then have "written (snd (Flush J r s now)) = written r"
      unfolding Flush_nonempty [OF \<open>buffers r s \<noteq> []\<close>] by (simp add: writeRecord_written)
    then show ?thesis ..
  qed
qed

lemma do_call_written:
  assumes "rec \<in> set (written (snd (do_call J r c)))"
  shows "rec \<in> set (written r) \<or>
     (\<exists>sq d t. rec = (NewRecord J sq (call_time c) (Source_String (call_source c)) d)\<lparr>Truncated := t\<rparr>)"
proof (cases c)
  case (RecordCall s data now)
  from Record_written [of J r s data now] obtain recs where
    w: "written (snd (Record J r s data now)) = written r @ recs"
    and e: "\<forall>rec\<in>set recs.
        emitted J now s (fst (assemble (maxLineLength r) (buffers r s) (truncated r s) data)) rec"
    by blast
  from assms RecordCall w have "rec \<in> set (written r) \<or> rec \<in> set recs" by simp
  then show ?thesis
  proof
    assume "rec \<in> set (written r)"
    then show ?thesis ..
  next
    assume "rec \<in> set recs"
    with e have "emitted J now s (fst (assemble (maxLineLength r) (buffers r s) (truncated r s) data)) rec"
      by blast
    then obtain sq d t where "rec = (NewRecord J sq now (Source_String s) d)\<lparr>Truncated := t\<rparr>"
      unfolding emitted_def by blast
    then show ?thesis using RecordCall by auto
  qed
next
  case (FlushCall s now)
  from Flush_written [of J r s now] assms FlushCall show ?thesis by auto
qed

lemma run_written_form:
  assumes "rec \<in> set (written (snd (run J r calls)))"
  shows "rec \<in> set (written r) \<or>
     (\<exists>c\<in>set calls. \<exists>sq d t.
         rec = (NewRecord J sq (call_time c) (Source_String (call_source c)) d)\<lparr>Truncated := t\<rparr>)"
  using assms
proof (induction calls arbitrary: r)
  case Nil
  then show ?case by simp
next
  case (Cons c cs)
  have "snd (run J r (c # cs)) = snd (run J (snd (do_call J r c)) cs)"
    by (simp add: case_prod_beta)
  with Cons.prems have "rec \<in> set (written (snd (run J (snd (do_call J r c)) cs)))" by simp
  from Cons.IH [OF this] show ?case
  proof
    assume "rec \<in> set (written (snd (do_call J r c)))"
    from do_call_written [OF this] show ?thesis by auto
  next
    assume "\<exists>c\<in>set cs. \<exists>sq d t.
         rec = (NewRecord J sq (call_time c) (Source_String (call_source c)) d)\<lparr>Truncated := t\<rparr>"
    then show ?thesis by auto
  qed
qed

lemma run_two_lines_written:
  "written (snd (run encoding_json (recorder0 0) two_lines)) =
     [NewRecord encoding_json 0 clock0 ''stdout'' (''a'' @ [LF]),
      NewRecord encoding_json 1 clock0 ''stderr'' (''b'' @ [LF])]"
  by (simp add: two_lines_def recorder0_def NewRecorder_def healthy_def case_prod_beta
        Record_line_accepted [where body = "''a''", simplified]
        Record_line_accepted [where body = "''b''", simplified])

lemma first_line_fields:
  "first_line = \<lparr>Seq = 0, Timestamp = ''2024-01-15T10:30:45.123Z'', Source = ''stdout'',
      Content = Str ''a'', Encoding = ''text'', End = [LF], Truncated = False\<rparr>"
proof -
  have "NewRecord encoding_json 0 clock0 ''stdout'' (''a'' @ [LF]) =
     \<lparr>Seq = 0, Timestamp = Format clock0, Source = ''stdout'',
      Content = Str (fst (splitTrailingCRLF (''a'' @ [LF]))),
      Encoding = ''text'', End = snd (splitTrailingCRLF (''a'' @ [LF])), Truncated = False\<rparr>"
    by (rule NewRecord_text) (simp_all add: trim_eval encoding_json_def scan_eval)
  moreover have "Format clock0 = ''2024-01-15T10:30:45.123Z''"
    by (simp add: format_eval)
  ultimately show ?thesis
    by (simp add: first_line_def split_eval)
qed


section \<open>Round trip\<close>

subsection \<open>base64\<close>










lemma char_of_mod: "char_of ((n :: nat) mod 256) = char_of n"
  by simp





subsection \<open>The bytes of a record\<close>






subsection \<open>A call that returns \<open>nil\<close>\<close>




subsection \<open>What \<open>assemble\<close> keeps of the bytes\<close>





subsection \<open>The invariant of a stream\<close>



















section \<open>Sequence numbers\<close>

text \<open>
  C1. Take any run of \<open>Record\<close> and \<open>Flush\<close> calls on a new recorder, on any streams and in
  any interleaving, in which every call returns \<open>nil\<close>, and let \<open>N\<close> be the number of records
  in the sink at its end (at most \<open>2^64\<close>, the range of the counter). Then the records carry,
  in the order in which they were written, the sequence numbers \<open>0, 1, \<dots>, N - 1\<close>: the
  numbers are pairwise distinct and are exactly the set \<open>{0, \<dots>, N - 1}\<close>.
\<close>

theorem sequence_numbers_contiguous:
  assumes "run J (NewRecorder env limit) calls = (es, r)"
    and "\<forall>e\<in>set es. e = None"
    and "length (written r) \<le> 2 ^ 64"
  shows "map (unat \<circ> Seq) (written r) = [0..<length (written r)]
       \<and> distinct (map Seq (written r))
       \<and> unat ` Seq ` set (written r) = {0..<length (written r)}"
proof -
  note R = run_NewRecorder [OF assms(1)]
  from assms(2) have "errors es = 0"
    by (simp add: errors_def filter_empty_conv)
  with R(2) have f: "failures r = 0" by simp
  note A = no_failures_all_written [OF R(1) f]
  from seq_inv_numbers [OF R(1)] assms(3) A
  have n: "map (unat \<circ> Seq) (written r) = [0..<length (written r)]" by simp
  have "distinct (map unat (map Seq (written r)))"
    using n by (simp add: o_def)
  then have d: "distinct (map Seq (written r))" by (rule distinct_map_arg)
  have "unat ` Seq ` set (written r) = set (map (unat \<circ> Seq) (written r))"
    by (simp add: image_comp)
  also have "\<dots> = {0..<length (written r)}" unfolding n by simp
  finally show ?thesis using n d by simp
qed

theorem sequence_numbers_contiguous_witness:
  "run encoding_json (NewRecorder healthy 0) two_lines
     = (fst (run encoding_json (recorder0 0) two_lines), snd (run encoding_json (recorder0 0) two_lines))
   \<and> fst (run encoding_json (recorder0 0) two_lines) = [None, None]
   \<and> length (written (snd (run encoding_json (recorder0 0) two_lines))) = 2
   \<and> (2 :: nat) \<le> 2 ^ 64
   \<and> map (unat \<circ> Seq) (written (snd (run encoding_json (recorder0 0) two_lines))) = [0, 1]"
proof -
  let ?run = "run encoding_json (recorder0 0) two_lines"
  have r: "run encoding_json (NewRecorder healthy 0) two_lines = (fst ?run, snd ?run)"
    by (simp add: recorder0_def)
  have e: "\<forall>e\<in>set (fst ?run). e = None"
    by (simp add: run_two_lines_healthy)
  have "length (map Seq (written (snd ?run))) = 2"
    unfolding run_two_lines_healthy by simp
  then have l: "length (written (snd ?run)) = 2" by simp
  then have b: "length (written (snd ?run)) \<le> 2 ^ 64" by simp
  from sequence_numbers_contiguous [OF r e b] l
  have "map (unat \<circ> Seq) (written (snd ?run)) = [0..<2]" by simp
  also have "[0..<2] = [0, Suc 0]" by (simp add: upt_rec)
  finally show ?thesis
    using r l by (simp add: run_two_lines_healthy)
qed


section \<open>Truncation\<close>

subsection \<open>What a truncated record holds\<close>

text \<open>
  C2. A truncated record should hold exactly \<open>limit\<close> bytes of its line as content. The
  code caps the line at \<open>limit\<close> bytes, appends the terminator and hands the result to
  \<open>NewRecord\<close>, which strips every trailing CR and LF from a text line: when the capped bytes
  end in CR, that CR leaves the content. With the limit 4, the chunk \<open>abc\<close>, CR, \<open>def\<close>
  followed by \<open>Flush\<close> gives a truncated record with the 3 bytes \<open>abc\<close> as content and the
  terminator CR; with the limit 3, the line \<open>ab\<close>, CR, \<open>def\<close>, LF gives a truncated record
  with the 2 bytes \<open>ab\<close> as content and the terminator CR, LF, which the line does not end in.
\<close>

theorem truncated_content_shorter_than_limit:
  "map summary (written (snd (run encoding_json (recorder0 4)
       [RecordCall Stdout (''abc'' @ [CR] @ ''def'') clock0, FlushCall Stdout clock0])))
     = [(Str ''abc'', ''text'', [CR], True)]
   \<and> map summary (written (snd (run encoding_json (recorder0 3)
       [RecordCall Stdout (''ab'' @ [CR] @ ''def'' @ [LF]) clock0])))
     = [(Str ''ab'', ''text'', [CR, LF], True)]"
proof -
  let ?r = "recorder0 4 :: string Recorder"
  let ?r1 = "?r\<lparr>buffers := (buffers ?r)(Stdout := ''abc'' @ [CR]),
                  truncated := (truncated ?r)(Stdout := True)\<rparr>"
  have t: "truncated (recorder0 limit) Stdout = False" "buffers (recorder0 limit) Stdout = []"
    for limit
    by (simp_all add: recorder0_def NewRecorder_def)
  have I: "IndexByte (''abc'' @ [CR] @ ''def'') LF = None" by simp
  have s1: "Record encoding_json ?r Stdout (''abc'' @ [CR] @ ''def'') clock0 = (None, ?r1)"
    unfolding Record_eq_loop t
    by (subst Record_loop_F_None [OF _ I]) (simp_all add: recorder0_def NewRecorder_def)
  have ne: "buffers ?r1 Stdout \<noteq> []" by simp
  have nr1: "NewRecord encoding_json 0 clock0 ''stdout'' (''abc'' @ [CR]) =
     \<lparr>Seq = 0, Timestamp = Format clock0, Source = ''stdout'',
      Content = Str (fst (splitTrailingCRLF (''abc'' @ [CR]))),
      Encoding = ''text'', End = snd (splitTrailingCRLF (''abc'' @ [CR])), Truncated = False\<rparr>"
    by (rule NewRecord_text) (simp_all add: trim_eval encoding_json_def scan_eval)
  have a: "map summary (written (snd (Flush encoding_json ?r1 Stdout clock0)))
      = [(Str ''abc'', ''text'', [CR], True)]"
    unfolding Flush_nonempty [OF ne]
    by (simp add: recorder0_def NewRecorder_def healthy_def writeRecord_written summary_def
          nr1 [simplified] split_eval)
  let ?q = "recorder0 3 :: string Recorder"
  have nr2: "NewRecord encoding_json 0 clock0 ''stdout'' (''ab'' @ [CR, LF]) =
     \<lparr>Seq = 0, Timestamp = Format clock0, Source = ''stdout'',
      Content = Str (fst (splitTrailingCRLF (''ab'' @ [CR, LF]))),
      Encoding = ''text'', End = snd (splitTrailingCRLF (''ab'' @ [CR, LF])), Truncated = False\<rparr>"
    by (rule NewRecord_text) (simp_all add: trim_eval encoding_json_def scan_eval)
  have nl: "LF \<notin> set (''ab'' @ [CR] @ ''def'')" by simp
  have s2: "Record_loop encoding_json ?q Stdout clock0 [] False ((''ab'' @ [CR] @ ''def'') @ LF # [])
      = writeRecord encoding_json ?q clock0 Stdout (''ab'' @ [CR, LF]) True"
    by (subst Record_loop_line_over [OF nl _ refl])
       (simp_all add: recorder0_def NewRecorder_def extractLineEndingFromLine_def
          appendInPlace_def Record_loop_nil healthy_def writeRecord_Written)
  have b: "map summary (written (snd (Record encoding_json ?q Stdout (''ab'' @ [CR] @ ''def'' @ [LF]) clock0)))
      = [(Str ''ab'', ''text'', [CR, LF], True)]"
    unfolding Record_eq_loop t
    using s2
    by (simp add: recorder0_def NewRecorder_def healthy_def writeRecord_written summary_def
          nr2 [simplified] split_eval)
  show ?thesis
    using a b by (simp add: s1 [simplified] case_prod_beta)
qed


subsection \<open>The line after a truncated one\<close>

text \<open>
  C3. A line whose total length equals the limit should be written unchanged and not
  truncated. With the limit 4, the chunk \<open>abc\<close>, CR, LF, \<open>wxy\<close>, LF holds the line \<open>abc\<close>, CR, LF
  of 5 bytes, which is truncated, and the line \<open>wxy\<close>, LF of exactly 4 bytes. The pending
  buffer being empty, \<open>append\<close> at line 219 writes the terminator CR, LF into the chunk at
  index 4, over the LF of the first line and the \<open>w\<close> of the second: the second line is
  written as an empty line followed by the line \<open>xy\<close>. Fed in a call of its own, the
  second line is written as it is. (The first record also shows the defect of C2: its
  content is \<open>abc\<close> and its terminator CR, CR, LF.)
\<close>

theorem truncation_overwrites_next_line:
  "map summary (written (snd (run encoding_json (recorder0 4)
       [RecordCall Stdout (''abc'' @ [CR, LF] @ ''wxy'' @ [LF]) clock0])))
     = [(Str ''abc'', ''text'', [CR, CR, LF], True),
        (Str [], ''text'', [LF], False),
        (Str ''xy'', ''text'', [LF], False)]
   \<and> map summary (written (snd (run encoding_json (recorder0 4)
       [RecordCall Stdout (''abc'' @ [CR, LF]) clock0, RecordCall Stdout (''wxy'' @ [LF]) clock0])))
     = [(Str ''abc'', ''text'', [CR, CR, LF], True),
        (Str ''wxy'', ''text'', [LF], False)]"
proof -
  let ?q = "recorder0 4 :: string Recorder"
  have t: "truncated (recorder0 limit) Stdout = False" "buffers (recorder0 limit) Stdout = []"
    for limit
    by (simp_all add: recorder0_def NewRecorder_def)
  have nr1: "NewRecord encoding_json sq clock0 ''stdout'' (''abc'' @ [CR, CR, LF]) =
     \<lparr>Seq = sq, Timestamp = Format clock0, Source = ''stdout'',
      Content = Str (fst (splitTrailingCRLF (''abc'' @ [CR, CR, LF]))),
      Encoding = ''text'', End = snd (splitTrailingCRLF (''abc'' @ [CR, CR, LF])), Truncated = False\<rparr>"
    for sq
    by (rule NewRecord_text) (simp_all add: trim_eval encoding_json_def scan_eval)
  have nr2: "NewRecord encoding_json sq clock0 ''stdout'' [LF] =
     \<lparr>Seq = sq, Timestamp = Format clock0, Source = ''stdout'',
      Content = Str (fst (splitTrailingCRLF [LF])),
      Encoding = ''text'', End = snd (splitTrailingCRLF [LF]), Truncated = False\<rparr>"
    for sq
    by (rule NewRecord_text) (simp_all add: trim_eval encoding_json_def scan_eval)
  have nr3: "NewRecord encoding_json sq clock0 ''stdout'' (''xy'' @ [LF]) =
     \<lparr>Seq = sq, Timestamp = Format clock0, Source = ''stdout'',
      Content = Str (fst (splitTrailingCRLF (''xy'' @ [LF]))),
      Encoding = ''text'', End = snd (splitTrailingCRLF (''xy'' @ [LF])), Truncated = False\<rparr>"
    for sq
    by (rule NewRecord_text) (simp_all add: trim_eval encoding_json_def scan_eval)
  have nr4: "NewRecord encoding_json sq clock0 ''stdout'' (''wxy'' @ [LF]) =
     \<lparr>Seq = sq, Timestamp = Format clock0, Source = ''stdout'',
      Content = Str (fst (splitTrailingCRLF (''wxy'' @ [LF]))),
      Encoding = ''text'', End = snd (splitTrailingCRLF (''wxy'' @ [LF])), Truncated = False\<rparr>"
    for sq
    by (rule NewRecord_text) (simp_all add: trim_eval encoding_json_def scan_eval)
  define q1 where "q1 = snd (writeRecord encoding_json ?q clock0 Stdout (''abc'' @ [CR, CR, LF]) True)"
  define q2 where "q2 = snd (writeRecord encoding_json q1 clock0 Stdout [LF] False)"
  define q3 where "q3 = snd (writeRecord encoding_json q2 clock0 Stdout (''xy'' @ [LF]) False)"
  define p2 where "p2 = snd (writeRecord encoding_json q1 clock0 Stdout (''wxy'' @ [LF]) False)"
  have q1: "q1 = ?q\<lparr>seq := 1, attempts := 1,
      written := [(NewRecord encoding_json 0 clock0 ''stdout'' (''abc'' @ [CR, CR, LF]))\<lparr>Truncated := True\<rparr>]\<rparr>"
    unfolding q1_def by (simp add: recorder0_def NewRecorder_def healthy_def writeRecord_Written)
  have q2: "q2 = q1\<lparr>seq := 2, attempts := 2,
      written := written q1 @ [NewRecord encoding_json 1 clock0 ''stdout'' [LF]]\<rparr>"
    unfolding q2_def
    by (simp add: q1 recorder0_def NewRecorder_def healthy_def writeRecord_Written NewRecord_Truncated)
  have q3: "q3 = q2\<lparr>seq := 3, attempts := 3,
      written := written q2 @ [NewRecord encoding_json 2 clock0 ''stdout'' (''xy'' @ [LF])]\<rparr>"
    unfolding q3_def
    by (simp add: q2 q1 recorder0_def NewRecorder_def healthy_def writeRecord_Written NewRecord_Truncated)
  have p2: "p2 = q1\<lparr>seq := 2, attempts := 2,
      written := written q1 @ [NewRecord encoding_json 1 clock0 ''stdout'' (''wxy'' @ [LF])]\<rparr>"
    unfolding p2_def
    by (simp add: q1 recorder0_def NewRecorder_def healthy_def writeRecord_Written NewRecord_Truncated)
  have f: "fst (writeRecord encoding_json r clock0 Stdout d tr) = None" if "outcome r = healthy"
    for r :: "string Recorder" and d tr
    using that by (simp add: healthy_def writeRecord_Written)
  have h: "outcome ?q = healthy" "outcome q1 = healthy" "outcome q2 = healthy"
    by (simp_all add: q2 q1 recorder0_def NewRecorder_def)
  have m: "maxLineLength ?q = 4" "maxLineLength q1 = 4" "maxLineLength q2 = 4"
    by (simp_all add: q2 q1 recorder0_def NewRecorder_def)
  have b: "buffers q1 Stdout = []" "truncated q1 Stdout = False"
    by (simp_all add: q1 recorder0_def NewRecorder_def)
  have l1: "Record_loop encoding_json ?q Stdout clock0 [] False ((''abc'' @ [CR]) @ LF # (''wxy'' @ [LF]))
      = Record_loop encoding_json q1 Stdout clock0 [] False ([] @ LF # (''xy'' @ [LF]))"
    by (subst Record_loop_line_over [OF _ _ refl])
       (simp_all add: m f [OF h(1)] extractLineEndingFromLine_def appendInPlace_def q1_def)
  have l2: "Record_loop encoding_json q1 Stdout clock0 [] False ([] @ LF # (''xy'' @ [LF]))
      = Record_loop encoding_json q2 Stdout clock0 [] False (''xy'' @ LF # [])"
    by (subst Record_loop_line_within [OF _ _ refl])
       (simp_all add: m f [OF h(2)] q2_def)
  have l3: "Record_loop encoding_json q2 Stdout clock0 [] False (''xy'' @ LF # []) = (None, q3)"
    by (subst Record_loop_line_within [OF _ _ refl])
       (simp_all add: m f [OF h(3)] q3_def Record_loop_nil)
  have a: "Record encoding_json ?q Stdout (''abc'' @ [CR, LF] @ ''wxy'' @ [LF]) clock0 = (None, q3)"
    unfolding Record_eq_loop t using l1 l2 l3 by simp
  have k1: "Record_loop encoding_json ?q Stdout clock0 [] False ((''abc'' @ [CR]) @ LF # []) = (None, q1)"
    by (subst Record_loop_line_over [OF _ _ refl])
       (simp_all add: m f [OF h(1)] extractLineEndingFromLine_def appendInPlace_def q1_def
          Record_loop_nil)
  have k2: "Record_loop encoding_json q1 Stdout clock0 [] False (''wxy'' @ LF # []) = (None, p2)"
    by (subst Record_loop_line_within [OF _ _ refl])
       (simp_all add: m f [OF h(2)] p2_def Record_loop_nil)
  have c1: "Record encoding_json ?q Stdout (''abc'' @ [CR, LF]) clock0 = (None, q1)"
    unfolding Record_eq_loop t using k1 by simp
  have c2: "Record encoding_json q1 Stdout (''wxy'' @ [LF]) clock0 = (None, p2)"
    unfolding Record_eq_loop b using k2 by simp
  have w3: "map summary (written q3) = [(Str ''abc'', ''text'', [CR, CR, LF], True),
        (Str [], ''text'', [LF], False), (Str ''xy'', ''text'', [LF], False)]"
    by (simp add: q3 q2 q1 recorder0_def NewRecorder_def summary_def nr1 [simplified]
          nr2 [simplified] nr3 [simplified] split_eval)
  have w2: "map summary (written p2) = [(Str ''abc'', ''text'', [CR, CR, LF], True),
        (Str ''wxy'', ''text'', [LF], False)]"
    by (simp add: p2 q1 recorder0_def NewRecorder_def summary_def nr1 [simplified]
          nr4 [simplified] split_eval)
  show ?thesis
    using w3 w2 by (simp add: a [simplified] c1 [simplified] c2 [simplified] case_prod_beta)
qed


section \<open>Classification\<close>

text \<open>
  C4. A line that is not valid UTF-8 should be classified \<open>base64\<close>. \<open>NewRecord\<close> tries JSON
  first, on the raw bytes, and \<open>json.Valid\<close> accepts any byte from \<open>0x20\<close> on inside a string
  literal: the line of the four bytes \<open>0x22\<close>, \<open>0xFF\<close>, \<open>0x22\<close>, LF (a quoted \<open>0xFF\<close>) is not valid
  UTF-8 and is classified \<open>json\<close>, its content the decoded string and its terminator empty.
\<close>

theorem invalid_utf8_classified_json:
  "\<not> utf8_Valid [CHR 0x22, CHR 0xFF, CHR 0x22, LF]
   \<and> map summary (written (snd (run encoding_json (recorder0 0)
       [RecordCall Stdout [CHR 0x22, CHR 0xFF, CHR 0x22, LF] clock0])))
     = [(Parsed [CHR 0x22, CHR 0xFF, CHR 0x22], ''json'', [], False)]"
proof -
  have u: "\<not> utf8_Valid [CHR 0x22, CHR 0xFF, CHR 0x22, LF]"
    by (simp add: inRange_def)
  have tr: "TrimSpace [CHR 0x22, CHR 0xFF, CHR 0x22, LF] = [CHR 0x22, CHR 0xFF, CHR 0x22]"
    by (simp add: trim_eval)
  have v: "json_Valid [CHR 0x22, CHR 0xFF, CHR 0x22]"
    by (simp add: scan_eval)
  have n: "numberLiterals scanner_reset [] [CHR 0x22, CHR 0xFF, CHR 0x22] = []"
    by (simp add: scan_eval numberStep_def Let_def)
  have um: "json_Unmarshal [CHR 0x22, CHR 0xFF, CHR 0x22] = Some [CHR 0x22, CHR 0xFF, CHR 0x22]"
    unfolding json_Unmarshal_def n using v by simp
  have nr: "NewRecord encoding_json sq clock0 ''stdout'' [CHR 0x22, CHR 0xFF, CHR 0x22, LF] =
     \<lparr>Seq = sq, Timestamp = Format clock0, Source = ''stdout'',
      Content = Parsed [CHR 0x22, CHR 0xFF, CHR 0x22],
      Encoding = ''json'', End = [], Truncated = False\<rparr>" for sq
    by (rule NewRecord_json) (simp_all add: tr encoding_json_def um v)
  have r: "Record encoding_json (recorder0 0) Stdout ([CHR 0x22, CHR 0xFF, CHR 0x22] @ [LF]) clock0 =
     (None, (recorder0 0)\<lparr>seq := seq (recorder0 0) + 1, attempts := attempts (recorder0 0) + 1,
        written := written (recorder0 0) @
          [NewRecord encoding_json (seq (recorder0 0)) clock0 (Source_String Stdout)
             ([CHR 0x22, CHR 0xFF, CHR 0x22] @ [LF])]\<rparr>)"
    by (rule Record_line_accepted) (simp_all add: recorder0_def NewRecorder_def healthy_def)
  have w: "map summary (written (snd (run encoding_json (recorder0 0)
       [RecordCall Stdout [CHR 0x22, CHR 0xFF, CHR 0x22, LF] clock0])))
     = [(Parsed [CHR 0x22, CHR 0xFF, CHR 0x22], ''json'', [], False)]"
    by (simp add: r [simplified] case_prod_beta)
       (simp add: recorder0_def NewRecorder_def summary_def nr [simplified])
  show ?thesis using u w by simp
qed


section \<open>Reading a stream back\<close>





section \<open>Flush\<close>







section \<open>Lines fed in several chunks\<close>

text \<open>
  C7. A line fed in several chunks should give the record that the line gives when fed in
  one call. With the limit 3, the line \<open>abcdef\<close>, CR, LF fed in one call gives a truncated
  record with the content \<open>abc\<close> and the terminator CR, LF. When it is fed as \<open>abcdef\<close>, CR
  and then LF, the pending buffer is capped at \<open>abc\<close> and the CR is discarded with the
  bytes beyond the limit; \<open>extractLineEnding\<close> looks for the CR at the end of the capped
  buffer and finds none: the record has the terminator LF.
\<close>

theorem split_line_loses_terminator:
  "map summary (written (snd (run encoding_json (recorder0 3)
       [RecordCall Stdout (''abcdef'' @ [CR, LF]) clock0])))
     = [(Str ''abc'', ''text'', [CR, LF], True)]
   \<and> map summary (written (snd (run encoding_json (recorder0 3)
       [RecordCall Stdout (''abcdef'' @ [CR]) clock0, RecordCall Stdout [LF] clock0])))
     = [(Str ''abc'', ''text'', [LF], True)]"
proof -
  let ?q = "recorder0 3 :: string Recorder"
  have t: "truncated (recorder0 limit) Stdout = False" "buffers (recorder0 limit) Stdout = []"
    for limit
    by (simp_all add: recorder0_def NewRecorder_def)
  have nr1: "NewRecord encoding_json sq clock0 ''stdout'' (''abc'' @ [CR, LF]) =
     \<lparr>Seq = sq, Timestamp = Format clock0, Source = ''stdout'',
      Content = Str (fst (splitTrailingCRLF (''abc'' @ [CR, LF]))),
      Encoding = ''text'', End = snd (splitTrailingCRLF (''abc'' @ [CR, LF])), Truncated = False\<rparr>"
    for sq
    by (rule NewRecord_text) (simp_all add: trim_eval encoding_json_def scan_eval)
  have nr2: "NewRecord encoding_json sq clock0 ''stdout'' (''abc'' @ [LF]) =
     \<lparr>Seq = sq, Timestamp = Format clock0, Source = ''stdout'',
      Content = Str (fst (splitTrailingCRLF (''abc'' @ [LF]))),
      Encoding = ''text'', End = snd (splitTrailingCRLF (''abc'' @ [LF])), Truncated = False\<rparr>"
    for sq
    by (rule NewRecord_text) (simp_all add: trim_eval encoding_json_def scan_eval)
  have f: "fst (writeRecord encoding_json r clock0 Stdout d tr) = None" if "outcome r = healthy"
    for r :: "string Recorder" and d tr
    using that by (simp add: healthy_def writeRecord_Written)
  have h: "outcome ?q = healthy" and m: "maxLineLength ?q = 3"
    by (simp_all add: recorder0_def NewRecorder_def)
  define q1 where "q1 = snd (writeRecord encoding_json ?q clock0 Stdout (''abc'' @ [CR, LF]) True)"
  have q1: "written q1 = [(NewRecord encoding_json 0 clock0 ''stdout'' (''abc'' @ [CR, LF]))\<lparr>Truncated := True\<rparr>]"
    unfolding q1_def by (simp add: recorder0_def NewRecorder_def healthy_def writeRecord_written)
  have k1: "Record_loop encoding_json ?q Stdout clock0 [] False ((''abcdef'' @ [CR]) @ LF # []) = (None, q1)"
    by (subst Record_loop_line_over [OF _ _ refl])
       (simp_all add: m f [OF h] extractLineEndingFromLine_def appendInPlace_def q1_def
          Record_loop_nil)
  have a: "Record encoding_json ?q Stdout (''abcdef'' @ [CR, LF]) clock0 = (None, q1)"
    unfolding Record_eq_loop t using k1 by simp
  let ?p1 = "?q\<lparr>buffers := (buffers ?q)(Stdout := ''abc''),
                  truncated := (truncated ?q)(Stdout := True)\<rparr>"
  have I: "IndexByte (''abcdef'' @ [CR]) LF = None" by simp
  have s1: "Record encoding_json ?q Stdout (''abcdef'' @ [CR]) clock0 = (None, ?p1)"
    unfolding Record_eq_loop t
    by (subst Record_loop_F_None [OF _ I]) (simp_all add: recorder0_def NewRecorder_def)
  have b: "buffers ?p1 Stdout = ''abc''" "truncated ?p1 Stdout = True"
    by simp_all
  have hp: "outcome ?p1 = healthy" by (simp add: recorder0_def NewRecorder_def)
  define p2 where "p2 = snd (writeRecord encoding_json ?p1 clock0 Stdout (''abc'' @ [LF]) True)"
  have p2: "written p2 = [(NewRecord encoding_json 0 clock0 ''stdout'' (''abc'' @ [LF]))\<lparr>Truncated := True\<rparr>]"
    unfolding p2_def by (simp add: recorder0_def NewRecorder_def healthy_def writeRecord_written)
  have J: "IndexByte [LF] LF = Some 0" by simp
  have k2: "Record_loop encoding_json ?p1 Stdout clock0 ''abc'' True [LF]
      = (None, p2\<lparr>buffers := (buffers p2)(Stdout := []),
                   truncated := (truncated p2)(Stdout := False)\<rparr>)"
    by (subst Record_loop_T_Some_if [OF J refl])
       (simp add: f [OF hp] extractLineEnding_def extractLineEndingFromLine_def p2_def
          Record_loop_nil)
  have s2: "Record encoding_json ?p1 Stdout [LF] clock0
      = (None, p2\<lparr>buffers := (buffers p2)(Stdout := []),
                   truncated := (truncated p2)(Stdout := False)\<rparr>)"
    unfolding Record_eq_loop b using k2 by simp
  have w1: "map summary (written q1) = [(Str ''abc'', ''text'', [CR, LF], True)]"
    by (simp add: q1 summary_def nr1 [simplified] split_eval)
  have w2: "map summary (written p2) = [(Str ''abc'', ''text'', [LF], True)]"
    by (simp add: p2 summary_def nr2 [simplified] split_eval)
  show ?thesis
    using w1 w2 by (simp add: a [simplified] s1 [simplified] s2 [simplified] case_prod_beta)
qed


section \<open>A record that cannot be written\<close>

text \<open>
  C8. At every state that a run of calls on a new recorder reaches: when the serializer or
  the writer refuses the record handed to it, \<open>writeRecord\<close> returns the error, leaves the
  sink as it was, and has advanced the sequence counter by exactly one. Over the whole run,
  every refusal is reported to the caller of the call in which it happened (the calls that
  returned an error are as many as the refusals), the counter is the number of records handed
  to the writer, and, while that number is within the range \<open>2^64\<close> of the counter, the records
  in the sink carry in order the numbers of the accepted attempts: the number of a refused
  record is not given to a later record, and no two records share a number.
\<close>

theorem write_failure_keeps_sequencing:
  assumes "run J (NewRecorder env limit) calls = (es, r)"
  shows "(outcome r (attempts r) \<noteq> Written \<longrightarrow>
            fst (writeRecord J r now s d t) \<noteq> None
          \<and> written (snd (writeRecord J r now s d t)) = written r
          \<and> seq (snd (writeRecord J r now s d t)) = seq r + 1)
       \<and> errors es = length (filter (\<lambda>k. env k \<noteq> Written) [0..<attempts r])
       \<and> seq r = of_nat (attempts r)
       \<and> (attempts r \<le> 2 ^ 64 \<longrightarrow>
            map (unat \<circ> Seq) (written r) = filter (\<lambda>k. env k = Written) [0..<attempts r]
          \<and> distinct (map Seq (written r)))"
proof (intro conjI impI)
  note R = run_NewRecorder [OF assms]
  {
    assume f: "outcome r (attempts r) \<noteq> Written"
    note w = writeRecord_fails [OF f, of J now s d t]
    from w show "fst (writeRecord J r now s d t) \<noteq> None" by simp
    from w show "written (snd (writeRecord J r now s d t)) = written r" by simp
    from w show "seq (snd (writeRecord J r now s d t)) = seq r + 1" by simp
  }
  show "errors es = length (filter (\<lambda>k. env k \<noteq> Written) [0..<attempts r])"
    using R(2,3) by (simp add: failures_def)
  show "seq r = of_nat (attempts r)"
    using R(1) by (simp add: seq_inv_def)
  {
    assume a: "attempts r \<le> 2 ^ 64"
    from seq_inv_numbers [OF R(1) a] R(3)
    show n: "map (unat \<circ> Seq) (written r) = filter (\<lambda>k. env k = Written) [0..<attempts r]"
      by simp
    have "distinct (map unat (map Seq (written r)))"
      using n by (simp add: o_def)
    then show "distinct (map Seq (written r))" by (rule distinct_map_arg)
  }
qed

theorem write_failure_keeps_sequencing_witness:
  "run encoding_json (NewRecorder refuse_first 0) [] = ([], recorder1)
   \<and> outcome recorder1 (attempts recorder1) \<noteq> Written
   \<and> fst (writeRecord encoding_json recorder1 clock0 Stdout (''a'' @ [LF]) False) \<noteq> None
   \<and> written (snd (writeRecord encoding_json recorder1 clock0 Stdout (''a'' @ [LF]) False)) = []
   \<and> seq (snd (writeRecord encoding_json recorder1 clock0 Stdout (''a'' @ [LF]) False)) = 1
   \<and> run encoding_json (NewRecorder refuse_first 0) two_lines
       = (fst (run encoding_json recorder1 two_lines), snd (run encoding_json recorder1 two_lines))
   \<and> fst (run encoding_json recorder1 two_lines) = [Some WriteError, None]
   \<and> errors (fst (run encoding_json recorder1 two_lines)) = 1
   \<and> attempts (snd (run encoding_json recorder1 two_lines)) = 2
   \<and> (2 :: nat) \<le> 2 ^ 64
   \<and> map (unat \<circ> Seq) (written (snd (run encoding_json recorder1 two_lines))) = [1]"
proof -
  let ?run = "run encoding_json recorder1 two_lines"
  have r0: "run encoding_json (NewRecorder refuse_first 0) [] = ([], recorder1)"
    by (simp add: recorder1_def)
  have f: "outcome recorder1 (attempts recorder1) \<noteq> Written"
    by (simp add: recorder1_def NewRecorder_def refuse_first_def)
  note A = write_failure_keeps_sequencing [OF r0, where now = clock0 and s = Stdout
      and d = "''a'' @ [LF]" and t = False, THEN conjunct1, THEN mp, OF f]
  have r: "run encoding_json (NewRecorder refuse_first 0) two_lines = (fst ?run, snd ?run)"
    by (simp add: recorder1_def)
  have a: "attempts (snd ?run) \<le> 2 ^ 64"
    by (simp add: run_two_lines_refused)
  note B = write_failure_keeps_sequencing [OF r, where now = clock0 and s = Stdout
      and d = "''a'' @ [LF]" and t = False, THEN conjunct2]
  note B1 = B [THEN conjunct1]
  note B3 = B [THEN conjunct2, THEN conjunct2, THEN mp, OF a, THEN conjunct1]
  have w: "written recorder1 = []" "seq recorder1 = 0"
    by (simp_all add: recorder1_def NewRecorder_def)
  have e: "errors (fst ?run) = 1"
    unfolding B1 by (simp add: run_two_lines_refused refuse_first_def upt_rec)
  have m: "map (unat \<circ> Seq) (written (snd ?run)) = [1]"
    unfolding B3 by (simp add: run_two_lines_refused refuse_first_def upt_rec)
  show ?thesis
    using r0 f A r e m by (simp add: w run_two_lines_refused)
qed


section \<open>The format of the records in the sink\<close>

text \<open>
  C9. Take any run on a new recorder whose calls read a valid UTC clock. Every record in the
  sink (one element of \<open>written\<close> is one physical line of the file) is serialized as one
  object with the fields \<open>seq\<close>, \<open>timestamp\<close>, \<open>source\<close>, \<open>content\<close> and \<open>encoding\<close>, in this
  order, followed by \<open>end\<close> exactly when the terminator is not empty and by \<open>truncated\<close>
  exactly when the record is truncated. \<open>seq\<close> is an integer, \<open>timestamp\<close> a string of the
  pattern \<open>YYYY-MM-DDTHH:MM:SS.mmmZ\<close>, \<open>source\<close> one of \<open>stdin\<close>, \<open>stdout\<close>, \<open>stderr\<close>, \<open>encoding\<close>
  one of \<open>text\<close>, \<open>json\<close>, \<open>base64\<close>; the content is a decoded JSON value exactly when the
  encoding is \<open>json\<close>, and a string otherwise; \<open>end\<close>, when present, is the terminator and
  \<open>truncated\<close>, when present, is the literal \<open>true\<close>.
\<close>

theorem serialized_record_format:
  assumes "\<forall>c\<in>set calls. validClock (call_time c)"
  shows "\<forall>rec\<in>set (written (snd (run J (NewRecorder env limit) calls))).
      map fst (ToJSON rec) =
          [''seq'', ''timestamp'', ''source'', ''content'', ''encoding'']
          @ (if End rec = [] then [] else [''end''])
          @ (if Truncated rec then [''truncated''] else [])
    \<and> map_of (ToJSON rec) ''seq'' = Some (JNumber (unat (Seq rec)))
    \<and> map_of (ToJSON rec) ''timestamp'' = Some (JString (Timestamp rec))
    \<and> timestampPattern (Timestamp rec)
    \<and> map_of (ToJSON rec) ''source'' = Some (JString (Source rec))
    \<and> Source rec \<in> {''stdin'', ''stdout'', ''stderr''}
    \<and> map_of (ToJSON rec) ''content'' = Some (JAny (Content rec))
    \<and> (Encoding rec = ''json'') = (\<exists>v. Content rec = Parsed v)
    \<and> map_of (ToJSON rec) ''encoding'' = Some (JString (Encoding rec))
    \<and> Encoding rec \<in> {''text'', ''json'', ''base64''}
    \<and> map_of (ToJSON rec) ''end'' = (if End rec = [] then None else Some (JString (End rec)))
    \<and> map_of (ToJSON rec) ''truncated'' = (if Truncated rec then Some (JBool True) else None)"
proof
  fix rec :: "'a LogRecord"
  assume "rec \<in> set (written (snd (run J (NewRecorder env limit) calls)))"
  from run_written_form [OF this] obtain c sq d t where
    c: "c \<in> set calls"
    and rec: "rec = (NewRecord J sq (call_time c) (Source_String (call_source c)) d)\<lparr>Truncated := t\<rparr>"
    by (auto simp: NewRecorder_def)
  from assms c have "validClock (call_time c)" by blast
  then have ts: "timestampPattern (Timestamp rec)"
    unfolding rec by (simp add: Format_pattern)
  have src: "Source rec \<in> {''stdin'', ''stdout'', ''stderr''}"
    unfolding rec by (cases "call_source c") simp_all
  have enc: "Encoding rec \<in> {''text'', ''json'', ''base64''}"
    unfolding rec using NewRecord_Encoding [of J sq "call_time c" "Source_String (call_source c)" d]
    by simp
  have con: "(Encoding rec = ''json'') = (\<exists>v. Content rec = Parsed v)"
    unfolding rec using NewRecord_Content [of J sq "call_time c" "Source_String (call_source c)" d]
    by simp
  have keys: "map fst (ToJSON rec) =
          [''seq'', ''timestamp'', ''source'', ''content'', ''encoding'']
          @ (if End rec = [] then [] else [''end''])
          @ (if Truncated rec then [''truncated''] else [])"
    by (simp add: ToJSON_def MarshalJSON_def)
  have vals: "map_of (ToJSON rec) ''seq'' = Some (JNumber (unat (Seq rec)))"
    "map_of (ToJSON rec) ''timestamp'' = Some (JString (Timestamp rec))"
    "map_of (ToJSON rec) ''source'' = Some (JString (Source rec))"
    "map_of (ToJSON rec) ''content'' = Some (JAny (Content rec))"
    "map_of (ToJSON rec) ''encoding'' = Some (JString (Encoding rec))"
    "map_of (ToJSON rec) ''end'' = (if End rec = [] then None else Some (JString (End rec)))"
    "map_of (ToJSON rec) ''truncated'' = (if Truncated rec then Some (JBool True) else None)"
    by (simp_all add: ToJSON_def MarshalJSON_def)
  show "map fst (ToJSON rec) =
          [''seq'', ''timestamp'', ''source'', ''content'', ''encoding'']
          @ (if End rec = [] then [] else [''end''])
          @ (if Truncated rec then [''truncated''] else [])
    \<and> map_of (ToJSON rec) ''seq'' = Some (JNumber (unat (Seq rec)))
    \<and> map_of (ToJSON rec) ''timestamp'' = Some (JString (Timestamp rec))
    \<and> timestampPattern (Timestamp rec)
    \<and> map_of (ToJSON rec) ''source'' = Some (JString (Source rec))
    \<and> Source rec \<in> {''stdin'', ''stdout'', ''stderr''}
    \<and> map_of (ToJSON rec) ''content'' = Some (JAny (Content rec))
    \<and> (Encoding rec = ''json'') = (\<exists>v. Content rec = Parsed v)
    \<and> map_of (ToJSON rec) ''encoding'' = Some (JString (Encoding rec))
    \<and> Encoding rec \<in> {''text'', ''json'', ''base64''}
    \<and> map_of (ToJSON rec) ''end'' = (if End rec = [] then None else Some (JString (End rec)))
    \<and> map_of (ToJSON rec) ''truncated'' = (if Truncated rec then Some (JBool True) else None)"
    using keys vals ts src enc con by (intro conjI)
qed

theorem serialized_record_format_witness:
  "validClock clock0
   \<and> first_line \<in> set (written (snd (run encoding_json (recorder0 0) two_lines)))
   \<and> map fst (ToJSON first_line) =
        [''seq'', ''timestamp'', ''source'', ''content'', ''encoding'', ''end'']
   \<and> Timestamp first_line = ''2024-01-15T10:30:45.123Z''
   \<and> timestampPattern (Timestamp first_line)
   \<and> map_of (ToJSON first_line) ''end'' = Some (JString [LF])
   \<and> map_of (ToJSON first_line) ''truncated'' = None"
proof -
  have v: "\<forall>c\<in>set two_lines. validClock (call_time c)"
    by (simp add: two_lines_def validClock_def clock0_def)
  have m: "first_line \<in> set (written (snd (run encoding_json (NewRecorder healthy 0) two_lines)))"
    using run_two_lines_written by (simp add: first_line_def recorder0_def)
  note S = serialized_record_format [OF v, of encoding_json healthy 0, THEN bspec, OF m]
  have e: "End first_line = [LF]" "Truncated first_line = False"
    "Timestamp first_line = ''2024-01-15T10:30:45.123Z''"
    by (simp_all add: first_line_fields)
  from S have "map fst (ToJSON first_line) =
          [''seq'', ''timestamp'', ''source'', ''content'', ''encoding'']
          @ (if End first_line = [] then [] else [''end''])
          @ (if Truncated first_line then [''truncated''] else [])"
    and "timestampPattern (Timestamp first_line)"
    and "map_of (ToJSON first_line) ''end'' =
          (if End first_line = [] then None else Some (JString (End first_line)))"
    and "map_of (ToJSON first_line) ''truncated'' =
          (if Truncated first_line then Some (JBool True) else None)"
    by blast+
  moreover have "validClock clock0"
    by (simp add: validClock_def clock0_def)
  ultimately show ?thesis
    using m e by (simp add: recorder0_def)
qed


section \<open>Lines are completed at LF bytes only\<close>

text \<open>
  C10. A chunk without an LF byte makes \<open>Record\<close> return \<open>nil\<close> and leaves the recorder as
  it was but for the pending buffer and the truncation flag of the chunk's own stream: no
  record is written, the sequence counter and the other streams are untouched. And whatever
  the chunk, no record that \<open>Record\<close> writes has a lone CR as its terminator: every line it
  hands to the writer ends in LF, so a terminator that is a lone CR can only come from
  \<open>Flush\<close>.
\<close>

theorem Record_completes_lines_at_LF_only:
  "(LF \<notin> set data \<longrightarrow>
      (\<exists>b t. Record J r source data now =
         (None, r\<lparr>buffers := (buffers r)(source := b), truncated := (truncated r)(source := t)\<rparr>)))
   \<and> (\<forall>rec\<in>set (drop (length (written r)) (written (snd (Record J r source data now)))).
        End rec \<noteq> [CR])"
proof
  show "LF \<notin> set data \<longrightarrow>
      (\<exists>b t. Record J r source data now =
         (None, r\<lparr>buffers := (buffers r)(source := b), truncated := (truncated r)(source := t)\<rparr>))"
  proof
    assume noLF: "LF \<notin> set data"
    then have I: "IndexByte data LF = None" by (simp add: IndexByte_None)
    have same: "r = r\<lparr>buffers := (buffers r)(source := buffers r source),
                      truncated := (truncated r)(source := truncated r source)\<rparr>"
      by simp
    show "\<exists>b t. Record J r source data now =
         (None, r\<lparr>buffers := (buffers r)(source := b), truncated := (truncated r)(source := t)\<rparr>)"
    proof (cases "data = [] \<or> truncated r source")
      case True
      then have "Record J r source data now = (None, r)"
        using I by (auto simp: Record_def Record_loop_T_None)
      with same show ?thesis by metis
    next
      case False
      then have F: "data \<noteq> []" "\<not> truncated r source" by simp_all
      show ?thesis
      proof (cases "maxLineLength r > 0 \<and> int (length (buffers r source @ data)) > maxLineLength r")
        case True
        have "Record J r source data now =
          (None, r\<lparr>buffers := (buffers r)(source := take (nat (maxLineLength r)) (buffers r source @ data)),
                    truncated := (truncated r)(source := True)\<rparr>)"
          unfolding Record_eq_loop using F(2)
          by (simp only: Record_loop_F_None [OF F(1) I] if_P [OF True])
        then show ?thesis by blast
      next
        case False
        have "Record J r source data now =
          (None, r\<lparr>buffers := (buffers r)(source := buffers r source @ data)\<rparr>)"
          unfolding Record_eq_loop using F(2)
          by (simp only: Record_loop_F_None [OF F(1) I] if_not_P [OF False])
        also have "r\<lparr>buffers := (buffers r)(source := buffers r source @ data)\<rparr> =
           r\<lparr>buffers := (buffers r)(source := buffers r source @ data),
              truncated := (truncated r)(source := truncated r source)\<rparr>"
          by simp
        finally show ?thesis by blast
      qed
    qed
  qed
next
  from Record_written [of J r source data now] obtain recs where
    w: "written (snd (Record J r source data now)) = written r @ recs"
    and e: "\<forall>rec\<in>set recs.
        emitted J now source
          (fst (assemble (maxLineLength r) (buffers r source) (truncated r source) data)) rec"
    by blast
  have "End rec \<noteq> [CR]" if "rec \<in> set recs" for rec
  proof -
    from e that obtain sq d t where
      d: "(d, t) \<in> set (fst (assemble (maxLineLength r) (buffers r source) (truncated r source) data))"
      and rec: "rec = (NewRecord J sq now (Source_String source) d)\<lparr>Truncated := t\<rparr>"
      unfolding emitted_def by blast
    from assemble_ends_LF [OF d] obtain xs where "d = xs @ [LF]" by blast
    then show ?thesis unfolding rec by (simp only: NewRecord_End_not_CR not_False_eq_True)
  qed
  then show "\<forall>rec\<in>set (drop (length (written r)) (written (snd (Record J r source data now)))).
        End rec \<noteq> [CR]"
    by (simp add: w)
qed

theorem Record_completes_lines_at_LF_only_witness:
  "LF \<notin> set (''abc'' @ [CR])
   \<and> fst (Record encoding_json (recorder0 0) Stdout (''abc'' @ [CR]) clock0) = None
   \<and> written (snd (Record encoding_json (recorder0 0) Stdout (''abc'' @ [CR]) clock0)) = []
   \<and> seq (snd (Record encoding_json (recorder0 0) Stdout (''abc'' @ [CR]) clock0)) = 0
   \<and> buffers (snd (Record encoding_json (recorder0 0) Stdout (''abc'' @ [CR]) clock0)) Stderr = []
   \<and> map End (drop (length (written (recorder0 0)))
        (written (snd (Record encoding_json (recorder0 0) Stdout (''hi'' @ [LF]) clock0))))
       = [[LF]]
   \<and> [LF] \<noteq> [CR]"
proof -
  let ?r = "recorder0 0"
  have noLF: "LF \<notin> set (''abc'' @ [CR])" by simp
  from Record_completes_lines_at_LF_only
         [where data = "''abc'' @ [CR]" and J = encoding_json and r = ?r and source = Stdout
            and now = clock0] noLF
  obtain b t where
    eq: "Record encoding_json ?r Stdout (''abc'' @ [CR]) clock0 =
          (None, ?r\<lparr>buffers := (buffers ?r)(Stdout := b), truncated := (truncated ?r)(Stdout := t)\<rparr>)"
    by blast
  have hi: "Record encoding_json ?r Stdout (''hi'' @ [LF]) clock0 =
      writeRecord encoding_json (?r\<lparr>buffers := (buffers ?r)(Stdout := [])\<rparr>) clock0 Stdout
        (buffers ?r Stdout @ ''hi'' @ [LF]) False"
    by (rule Record_line_within) (simp_all add: recorder0_def NewRecorder_def)
  have nr: "NewRecord encoding_json 0 clock0 ''stdout'' (''hi'' @ [LF]) =
     \<lparr>Seq = 0, Timestamp = Format clock0, Source = ''stdout'',
      Content = Str (fst (splitTrailingCRLF (''hi'' @ [LF]))),
      Encoding = ''text'', End = snd (splitTrailingCRLF (''hi'' @ [LF])), Truncated = False\<rparr>"
    by (rule NewRecord_text) (simp_all add: trim_eval encoding_json_def scan_eval)
  have "map End (drop (length (written ?r))
        (written (snd (Record encoding_json ?r Stdout (''hi'' @ [LF]) clock0)))) = [[LF]]"
    unfolding hi
    by (simp add: writeRecord_written recorder0_def NewRecorder_def healthy_def nr [simplified] split_eval)
  with noLF show ?thesis
    unfolding eq by (simp add: recorder0_def NewRecorder_def)
qed


end
